theory Spec2Isabelle
  imports Complex_Main "HOL-Library.Word"
begin

section \<open>Matrix addition for CSR and dense matrices (qutip/core/data/add.pyx)\<close>

text \<open>
  A shallow embedding of \<^verbatim>\<open>add.pyx\<close>: the CSR merge kernels \<^verbatim>\<open>_add_csr\<close> and
  \<^verbatim>\<open>_add_csr_scale\<close>, the entry points \<^verbatim>\<open>add_csr\<close>, \<^verbatim>\<open>add_dense\<close>,
  \<^verbatim>\<open>iadd_dense\<close>, \<^verbatim>\<open>sub_csr\<close>, \<^verbatim>\<open>sub_dense\<close> and the shape check.

  Conventions of the embedding.
  \<^item> Matrix entries (\<^verbatim>\<open>double complex\<close>) are the complex numbers and the tolerance
    (\<^verbatim>\<open>double\<close>) is a real number: arithmetic is exact, rounding is not modelled.
  \<^item> \<^verbatim>\<open>idxint\<close> is declared outside this file; indices and shapes are natural
    numbers. The C \<^verbatim>\<open>int\<close> of the dense kernels is a 32-bit two's-complement word.
  \<^item> A Python object is a position in a store (a list of objects): creating an object
    appends to the store, mutating one updates its position. An entry point takes the
    store and the positions of its operands and returns the store after the call with
    either the raised error or the position of the returned object.
  \<^item> A buffer is a list. The source is compiled without bounds checks, so it gives no
    meaning to an access outside a buffer; the theorems are about matrices that satisfy
    the invariants of the data model (\<open>valid_csr\<close>, \<open>valid_dense\<close>).
  \<^item> A leading underscore cannot start an Isabelle name: \<^verbatim>\<open>_check_shape\<close>,
    \<^verbatim>\<open>_add_csr\<close>, \<^verbatim>\<open>_add_csr_scale\<close> and \<^verbatim>\<open>_add_dense_eq_order\<close> are
    \<open>priv_check_shape\<close>, \<open>priv_add_csr\<close>, \<open>priv_add_csr_scale\<close> and
    \<open>priv_add_dense_eq_order\<close>.
\<close>

subsection \<open>Data model\<close>

record Data =
  shape :: "nat \<times> nat"

record CSR = Data +
  row_index :: "nat list"
  col_index :: "nat list"
  data :: "complex list"

record Dense = Data +
  data :: "complex list"
  fortran :: bool

datatype error = ValueError string

type_synonym ref = nat

text \<open>
  What a call reads from outside its arguments: the two entries of
  \<^verbatim>\<open>settings.core\<close>, and the contents of memory the call reads before writing it.
  \<open>tol_unset\<close> is the value the C local \<^verbatim>\<open>tol\<close> of the merge kernels holds when no
  assignment to it has run (\<^verbatim>\<open>cdef double tol\<close> has no initialiser); \<open>fresh_idx\<close> and
  \<open>fresh_val\<close> are the contents of the buffers \<^verbatim>\<open>csr.empty\<close> hands out.
\<close>

record env =
  auto_tidyup :: bool
  auto_tidyup_atol :: real
  tol_unset :: real
  fresh_idx :: "nat \<Rightarrow> nat"
  fresh_val :: "nat \<Rightarrow> complex"

definition new_obj :: "'a list \<Rightarrow> 'a \<Rightarrow> 'a list \<times> (error + ref)" where
  "new_obj h x = (h @ [x], Inr (length h))"

subsection \<open>Shape check\<close>

text \<open>Python's \<^verbatim>\<open>str\<close> on a non-negative integer and on a pair of them.\<close>

fun str_nat :: "nat \<Rightarrow> string" where
  "str_nat n =
     (if n < 10 then [''0123456789'' ! n]
      else str_nat (n div 10) @ [''0123456789'' ! (n mod 10)])"

definition str_shape :: "nat \<times> nat \<Rightarrow> string" where
  "str_shape s = ''('' @ str_nat (fst s) @ '', '' @ str_nat (snd s) @ '')''"

definition priv_check_shape :: "'a Data_scheme \<Rightarrow> 'b Data_scheme \<Rightarrow> error + unit" where
  "priv_check_shape left right =
     (if fst (shape left) \<noteq> fst (shape right) \<or> snd (shape left) \<noteq> snd (shape right)
      then Inl (ValueError (''incompatible matrix shapes '' @ str_shape (shape left)
                            @ '' and '' @ str_shape (shape right)))
      else Inr ())"

subsection \<open>Collaborators of the CSR kernels\<close>

text \<open>
  Modelled from the spec: \<^verbatim>\<open>csr.nnz\<close>, \<^verbatim>\<open>CSR.copy\<close> and \<^verbatim>\<open>csr.empty\<close> are
  defined in \<^verbatim>\<open>csr.pyx\<close>, which is not among the sources. The spec: "row_index[rows]
  equals the total stored entry count (nnz)"; "copy() on either matrix type returns an
  independent deep copy"; "empty(rows, cols, capacity) returns an uninitialized CSR with
  row_index/col_index/data sized for capacity entries".
\<close>

definition csr_nnz :: "CSR \<Rightarrow> nat" where
  "csr_nnz m = row_index m ! fst (shape m)"

definition csr_copy :: "CSR \<Rightarrow> CSR" where
  "csr_copy m = m"

definition csr_empty :: "env \<Rightarrow> nat \<Rightarrow> nat \<Rightarrow> nat \<Rightarrow> CSR" where
  "csr_empty e rows cols cap =
     \<lparr>shape = (rows, cols),
      row_index = map (fresh_idx e) [0..<rows + 1],
      col_index = map (fresh_idx e) [0..<cap],
      CSR.data = map (fresh_val e) [0..<cap]\<rparr>"

text \<open>
  Modelled from the spec: the sparse accumulator (\<^verbatim>\<open>Accumulator\<close>, \<^verbatim>\<open>acc_alloc\<close>,
  \<^verbatim>\<open>acc_scatter\<close>, \<^verbatim>\<open>acc_gather\<close>, \<^verbatim>\<open>acc_reset\<close>, \<^verbatim>\<open>acc_free\<close>) is defined in
  \<^verbatim>\<open>csr.pxd\<close>, which is not among the sources. The spec: the accumulator "owns a dense
  value buffer of length ncols plus bookkeeping to know which of those columns have been
  touched since the last reset, and in what order"; scatter "adds value to the
  accumulator's running total at column; if column was not previously touched in this
  row, marks it touched and records it"; gather "writes the touched columns, in ascending
  column order, compacted, into the caller-provided output buffers; a touched column is
  omitted from the output if its final accumulated value's magnitude is at or below
  tolerance", and "returns the count of entries actually written"; reset "clears all
  touch-marks and values". \<^verbatim>\<open>acc_free\<close> only releases storage and has no model.
  The gather is handed the tolerance as one number (line 84), so it compares every
  accumulated value with that number, whatever the tidy-up flag was.
\<close>

record Accumulator =
  "values" :: "complex list"
  nonzero :: "nat list"

definition acc_alloc :: "nat \<Rightarrow> Accumulator" where
  "acc_alloc ncols = \<lparr>values = replicate ncols 0, nonzero = []\<rparr>"

definition acc_scatter :: "Accumulator \<Rightarrow> complex \<Rightarrow> nat \<Rightarrow> Accumulator" where
  "acc_scatter acc v position =
     \<lparr>values = (values acc)[position := values acc ! position + v],
      nonzero = (if position \<in> set (nonzero acc) then nonzero acc
                 else nonzero acc @ [position])\<rparr>"

text \<open>Writing a run of items into a buffer from an offset on (\<^verbatim>\<open>ptr + off\<close>).\<close>

primrec write_seq :: "'a list \<Rightarrow> nat \<Rightarrow> 'a list \<Rightarrow> 'a list" where
  "write_seq buf off [] = buf"
| "write_seq buf off (x # xs) = write_seq (buf[off := x]) (Suc off) xs"

definition acc_entries :: "Accumulator \<Rightarrow> real \<Rightarrow> (nat \<times> complex) list" where
  "acc_entries acc tol =
     filter (\<lambda>e. \<not> cmod (snd e) \<le> tol)
       (map (\<lambda>position. (position, values acc ! position)) (sort (nonzero acc)))"

definition acc_gather ::
  "Accumulator \<Rightarrow> complex list \<Rightarrow> nat list \<Rightarrow> nat \<Rightarrow> real \<Rightarrow> nat \<times> complex list \<times> nat list" where
  "acc_gather acc values_buf indices_buf off tol =
     (let es = acc_entries acc tol
      in (length es, write_seq values_buf off (map snd es),
          write_seq indices_buf off (map fst es)))"

definition acc_reset :: "Accumulator \<Rightarrow> Accumulator" where
  "acc_reset acc = \<lparr>values = replicate (length (values acc)) 0, nonzero = []\<rparr>"

subsection \<open>The CSR merge kernels\<close>

text \<open>
  The \<^verbatim>\<open>while\<close> loop of \<^verbatim>\<open>_add_csr\<close> (lines 73-81) and of \<^verbatim>\<open>_add_csr_scale\<close>
  (lines 114-122). The two loops differ in one expression, the value scattered for an
  entry of \<^verbatim>\<open>b\<close>: \<^verbatim>\<open>b.data[ptr_b]\<close> in the first, \<^verbatim>\<open>scale * b.data[ptr_b]\<close> in
  the second; it is the parameter \<open>f\<close>. The loop has no bound of its own (on a matrix
  whose column indices exceed \<^verbatim>\<open>ncols + 1\<close> it need not stop), so not returning is
  the value \<open>None\<close>.
\<close>

partial_function (option) merge_loop ::
  "(complex \<Rightarrow> complex) \<Rightarrow> CSR \<Rightarrow> CSR \<Rightarrow> nat \<Rightarrow> nat \<Rightarrow> nat
     \<Rightarrow> nat \<Rightarrow> nat \<Rightarrow> nat \<Rightarrow> nat \<Rightarrow> Accumulator \<Rightarrow> Accumulator option" where
  "merge_loop f a b ncols ptr_a_max ptr_b_max ptr_a ptr_b col_a col_b acc =
     (if ptr_a < ptr_a_max \<or> ptr_b < ptr_b_max then
        (if col_a < col_b then
           merge_loop f a b ncols ptr_a_max ptr_b_max (ptr_a + 1) ptr_b
             (if ptr_a + 1 < ptr_a_max then col_index a ! (ptr_a + 1) else ncols + 1)
             col_b
             (acc_scatter acc (CSR.data a ! ptr_a) col_a)
         else
           merge_loop f a b ncols ptr_a_max ptr_b_max ptr_a (ptr_b + 1)
             col_a
             (if ptr_b + 1 < ptr_b_max then col_index b ! (ptr_b + 1) else ncols + 1)
             (acc_scatter acc (f (CSR.data b ! ptr_b)) col_b))
      else Some acc)"

text \<open>
  The \<^verbatim>\<open>for row in range(a.shape[0])\<close> loop of both kernels (lines 61-86, 107-125),
  over the rows still to do; the loop variables \<^verbatim>\<open>ptr_a_max\<close>, \<^verbatim>\<open>ptr_b_max\<close>,
  \<^verbatim>\<open>nnz\<close>, the accumulator and the output matrix are passed along.
\<close>

fun add_csr_rows ::
  "(complex \<Rightarrow> complex) \<Rightarrow> real \<Rightarrow> CSR \<Rightarrow> CSR \<Rightarrow> nat list
     \<Rightarrow> nat \<Rightarrow> nat \<Rightarrow> nat \<Rightarrow> Accumulator \<Rightarrow> CSR \<Rightarrow> (nat \<times> Accumulator \<times> CSR) option" where
  "add_csr_rows f tol a b [] ptr_a_max ptr_b_max nnz acc c = Some (nnz, acc, c)"
| "add_csr_rows f tol a b (row # rows) ptr_a_max ptr_b_max nnz acc c =
     (let ncols = snd (shape a);
          ptr_a = ptr_a_max;
          ptr_a_max' = row_index a ! (row + 1);
          ptr_b = ptr_b_max;
          ptr_b_max' = row_index b ! (row + 1);
          col_a = (if ptr_a < ptr_a_max' then col_index a ! ptr_a else ncols + 1);
          col_b = (if ptr_b < ptr_b_max' then col_index b ! ptr_b else ncols + 1)
      in case merge_loop f a b ncols ptr_a_max' ptr_b_max' ptr_a ptr_b col_a col_b acc of
           None \<Rightarrow> None
         | Some acc1 \<Rightarrow>
             (case acc_gather acc1 (CSR.data c) (col_index c) nnz tol of
                (n, vals, cols) \<Rightarrow>
                  add_csr_rows f tol a b rows ptr_a_max' ptr_b_max' (nnz + n)
                    (acc_reset acc1)
                    (c\<lparr>CSR.data := vals, col_index := cols,
                       row_index := (row_index c)[row + 1 := nnz + n]\<rparr>)))"

text \<open>
  \<^verbatim>\<open>tol\<close> is assigned only inside \<^verbatim>\<open>if settings.core['auto_tidyup']\<close> (lines 55-58,
  101-104); otherwise the gather receives whatever the local held.
\<close>

definition kernel_tol :: "env \<Rightarrow> real" where
  "kernel_tol e = (if auto_tidyup e then auto_tidyup_atol e else tol_unset e)"

definition priv_add_csr ::
  "env \<Rightarrow> Accumulator \<Rightarrow> CSR \<Rightarrow> CSR \<Rightarrow> CSR \<Rightarrow> (nat \<times> Accumulator \<times> CSR) option" where
  "priv_add_csr e acc a b c =
     add_csr_rows (\<lambda>v. v) (kernel_tol e) a b [0..<fst (shape a)] 0 0 0 acc
       (c\<lparr>row_index := (row_index c)[0 := 0]\<rparr>)"

definition priv_add_csr_scale ::
  "env \<Rightarrow> Accumulator \<Rightarrow> CSR \<Rightarrow> CSR \<Rightarrow> CSR \<Rightarrow> complex
     \<Rightarrow> (nat \<times> Accumulator \<times> CSR) option" where
  "priv_add_csr_scale e acc a b c scale =
     add_csr_rows (\<lambda>v. scale * v) (kernel_tol e) a b [0..<fst (shape a)] 0 0 0 acc
       (c\<lparr>row_index := (row_index c)[0 := 0]\<rparr>)"

subsection \<open>CSR entry points\<close>

definition add_csr ::
  "env \<Rightarrow> CSR list \<Rightarrow> ref \<Rightarrow> ref \<Rightarrow> complex \<Rightarrow> (CSR list \<times> (error + ref)) option" where
  "add_csr e h left right scale =
     (case priv_check_shape (h ! left) (h ! right) of
        Inl err \<Rightarrow> Some (h, Inl err)
      | Inr _ \<Rightarrow>
          (let left_nnz = csr_nnz (h ! left);
               right_nnz = csr_nnz (h ! right);
               worst_nnz = left_nnz + right_nnz
           in if right_nnz = 0 \<or> scale = 0 then Some (new_obj h (csr_copy (h ! left)))
              else if left_nnz = 0 then
                (let out = csr_copy (h ! right)
                 in Some (new_obj h
                      (if scale \<noteq> 1
                       then out\<lparr>CSR.data :=
                               fold (\<lambda>i d. d[i := d ! i * scale]) [0..<right_nnz] (CSR.data out)\<rparr>
                       else out)))
              else
                (let out = csr_empty e (fst (shape (h ! left))) (snd (shape (h ! left))) worst_nnz;
                     acc = acc_alloc (snd (shape (h ! left)))
                 in case (if scale = 1 then priv_add_csr e acc (h ! left) (h ! right) out
                          else priv_add_csr_scale e acc (h ! left) (h ! right) out scale) of
                      None \<Rightarrow> None
                    | Some (n, acc', out') \<Rightarrow> Some (new_obj h out'))))"

definition sub_csr ::
  "env \<Rightarrow> CSR list \<Rightarrow> ref \<Rightarrow> ref \<Rightarrow> (CSR list \<times> (error + ref)) option" where
  "sub_csr e h left right = add_csr e h left right (- 1)"

subsection \<open>Dense kernels and entry points\<close>

text \<open>
  \<^verbatim>\<open>cdef int size = left.shape[0] * left.shape[1]\<close> and
  \<^verbatim>\<open>cdef int dim1, dim2\<close>: a count held in a wider type is stored in a C
  \<^verbatim>\<open>int\<close>, which keeps its low 32 bits as a two's-complement number.
\<close>

definition c_int :: "nat \<Rightarrow> int" where
  "c_int n = sint (word_of_nat n :: 32 word)"

text \<open>
  Modelled from the spec: \<^verbatim>\<open>Dense.copy\<close> is defined in \<^verbatim>\<open>dense.pyx\<close>, which is not
  among the sources ("copy() on either matrix type returns an independent deep copy").
\<close>

definition dense_copy :: "Dense \<Rightarrow> Dense" where
  "dense_copy m = m"

text \<open>
  Reading and writing one element of the buffer of a dense matrix in the store; a C
  pointer \<^verbatim>\<open>m.data + off\<close> is the pair of the matrix and the offset.
\<close>

definition peek :: "Dense list \<Rightarrow> ref \<Rightarrow> nat \<Rightarrow> complex" where
  "peek h r k = Dense.data (h ! r) ! k"

definition poke :: "Dense list \<Rightarrow> ref \<Rightarrow> nat \<Rightarrow> complex \<Rightarrow> Dense list" where
  "poke h r k v = h[r := (h ! r)\<lparr>Dense.data := (Dense.data (h ! r))[k := v]\<rparr>]"

text \<open>
  BLAS \<^verbatim>\<open>zaxpy(n, alpha, x, incx, y, incy)\<close>: for \<^verbatim>\<open>i = 0 .. n-1\<close> in turn,
  \<^verbatim>\<open>y[i*incy] := alpha * x[i*incx] + y[i*incy]\<close>; nothing when \<^verbatim>\<open>n <= 0\<close>. Each
  step reads the store as the steps before left it, so \<^verbatim>\<open>x\<close> and \<^verbatim>\<open>y\<close> may be
  the same buffer. Every call of this file passes positive increments (\<^verbatim>\<open>_ONE\<close>, or
  \<^verbatim>\<open>dim2\<close> inside \<^verbatim>\<open>range(dim2)\<close>), so increments are natural numbers.
\<close>

definition zaxpy ::
  "int \<Rightarrow> complex \<Rightarrow> ref \<times> nat \<Rightarrow> nat \<Rightarrow> ref \<times> nat \<Rightarrow> nat \<Rightarrow> Dense list \<Rightarrow> Dense list" where
  "zaxpy n alpha x incx y incy h =
     fold (\<lambda>i h'. poke h' (fst y) (snd y + i * incy)
                     (alpha * peek h' (fst x) (snd x + i * incx)
                      + peek h' (fst y) (snd y + i * incy)))
       [0..<nat n] h"

definition priv_add_dense_eq_order ::
  "Dense list \<Rightarrow> ref \<Rightarrow> ref \<Rightarrow> complex \<Rightarrow> Dense list \<times> (error + ref)" where
  "priv_add_dense_eq_order h left right scale =
     (let out = length h;
          h1 = h @ [dense_copy (h ! left)];
          size = c_int (fst (shape (h ! left)) * snd (shape (h ! left)))
      in (zaxpy size scale (right, 0) 1 (out, 0) 1 h1, Inr out))"

text \<open>
  The strided loop shared by \<^verbatim>\<open>add_dense\<close> (lines 203-204) and \<^verbatim>\<open>iadd_dense\<close>
  (lines 218-220): \<^verbatim>\<open>for idx in range(dim2): zaxpy(&dim1, &scale, right.data + idx,
  &dim2, dst.data + idx*dim1, &_ONE)\<close>; a non-positive \<^verbatim>\<open>dim2\<close> gives no iteration.
\<close>

definition strided_loop ::
  "int \<Rightarrow> int \<Rightarrow> complex \<Rightarrow> ref \<Rightarrow> ref \<Rightarrow> Dense list \<Rightarrow> Dense list" where
  "strided_loop dim1 dim2 scale right dst h =
     fold (\<lambda>idx h'. zaxpy dim1 scale (right, idx) (nat dim2) (dst, idx * nat dim1) 1 h')
       [0..<nat dim2] h"

definition add_dense ::
  "Dense list \<Rightarrow> ref \<Rightarrow> ref \<Rightarrow> complex \<Rightarrow> Dense list \<times> (error + ref)" where
  "add_dense h left right scale =
     (case priv_check_shape (h ! left) (h ! right) of
        Inl err \<Rightarrow> (h, Inl err)
      | Inr _ \<Rightarrow>
          if \<not> (fortran (h ! left) \<noteq> fortran (h ! right))
          then priv_add_dense_eq_order h left right scale
          else
            (let out = length h;
                 h1 = h @ [dense_copy (h ! left)];
                 nrows = fst (shape (h ! left));
                 ncols = snd (shape (h ! left));
                 dim1 = c_int (if fortran (h ! left) then nrows else ncols);
                 dim2 = c_int (if fortran (h ! left) then ncols else nrows)
             in (strided_loop dim1 dim2 scale right out h1, Inr out)))"

definition iadd_dense ::
  "Dense list \<Rightarrow> ref \<Rightarrow> ref \<Rightarrow> complex \<Rightarrow> Dense list \<times> (error + ref)" where
  "iadd_dense h left right scale =
     (case priv_check_shape (h ! left) (h ! right) of
        Inl err \<Rightarrow> (h, Inl err)
      | Inr _ \<Rightarrow>
          (let size = c_int (fst (shape (h ! left)) * snd (shape (h ! left)));
               nrows = fst (shape (h ! left));
               ncols = snd (shape (h ! left));
               dim1 = c_int (if fortran (h ! left) then nrows else ncols);
               dim2 = c_int (if fortran (h ! left) then ncols else nrows)
           in (if \<not> (fortran (h ! left) \<noteq> fortran (h ! right))
               then zaxpy size scale (right, 0) 1 (left, 0) 1 h
               else strided_loop dim1 dim2 scale right left h,
               Inr left)))"

definition sub_dense ::
  "Dense list \<Rightarrow> ref \<Rightarrow> ref \<Rightarrow> Dense list \<times> (error + ref)" where
  "sub_dense h left right = add_dense h left right (- 1)"

subsection \<open>What the claims speak about\<close>

text \<open>
  Row \<open>r\<close> of a CSR matrix is the run of (column, value) pairs between
  \<open>row_index[r]\<close> and \<open>row_index[r+1]\<close>; the dense expansion has, at \<open>(i, j)\<close>, the sum
  of the stored values of row \<open>i\<close> at column \<open>j\<close> (one value at most in a valid matrix,
  none for an entry that is not stored).
\<close>

definition seg :: "'a list \<Rightarrow> nat \<Rightarrow> nat \<Rightarrow> 'a list" where
  "seg xs s e = take (e - s) (drop s xs)"

definition csr_row_cols :: "CSR \<Rightarrow> nat \<Rightarrow> nat list" where
  "csr_row_cols m r = seg (col_index m) (row_index m ! r) (row_index m ! (r + 1))"

definition pick :: "nat \<Rightarrow> (nat \<times> complex) list \<Rightarrow> complex" where
  "pick j es = sum_list (map snd (filter (\<lambda>e. fst e = j) es))"

definition entries_from :: "CSR \<Rightarrow> nat \<Rightarrow> nat \<Rightarrow> (nat \<times> complex) list" where
  "entries_from m p q = zip (seg (col_index m) p q) (seg (CSR.data m) p q)"

definition csr_row :: "CSR \<Rightarrow> nat \<Rightarrow> (nat \<times> complex) list" where
  "csr_row m r = entries_from m (row_index m ! r) (row_index m ! (r + 1))"

definition csr_entry :: "CSR \<Rightarrow> nat \<Rightarrow> nat \<Rightarrow> complex" where
  "csr_entry m i j = pick j (csr_row m i)"

definition csr_to_dense :: "CSR \<Rightarrow> complex list list" where
  "csr_to_dense m =
     map (\<lambda>i. map (\<lambda>j. csr_entry m i j) [0..<snd (shape m)]) [0..<fst (shape m)]"

text \<open>
  The CSR invariant of the data model: \<open>row_index\<close> has \<open>rows + 1\<close> entries, starts at
  0, does not decrease and ends at a count within the capacity of both buffers; the
  columns of every row increase strictly and lie below \<open>cols\<close>.
\<close>

definition valid_csr :: "CSR \<Rightarrow> bool" where
  "valid_csr m \<longleftrightarrow>
     length (row_index m) = fst (shape m) + 1 \<and>
     row_index m ! 0 = 0 \<and>
     sorted (row_index m) \<and>
     csr_nnz m \<le> length (col_index m) \<and>
     csr_nnz m \<le> length (CSR.data m) \<and>
     (\<forall>r \<in> set [0..<fst (shape m)].
        sorted_wrt (<) (csr_row_cols m r) \<and> (\<forall>c \<in> set (csr_row_cols m r). c < snd (shape m)))"

text \<open>
  The dense invariant: the buffer holds \<open>rows * cols\<close> values; element \<open>(i, j)\<close> is at
  \<open>i + j * rows\<close> in a column-major buffer and at \<open>i * cols + j\<close> in a row-major one.
\<close>

definition valid_dense :: "Dense \<Rightarrow> bool" where
  "valid_dense m \<longleftrightarrow> length (Dense.data m) = fst (shape m) * snd (shape m)"

definition dense_entry :: "Dense \<Rightarrow> nat \<Rightarrow> nat \<Rightarrow> complex" where
  "dense_entry m i j =
     Dense.data m ! (if fortran m then i + j * fst (shape m) else i * snd (shape m) + j)"

definition dense_to_rows :: "Dense \<Rightarrow> complex list list" where
  "dense_to_rows m =
     map (\<lambda>i. map (\<lambda>j. dense_entry m i j) [0..<snd (shape m)]) [0..<fst (shape m)]"

subsection \<open>Auxiliary notions for the proofs\<close>

text \<open>
  What the merge establishes for row \<open>r\<close> of the output \<open>c\<close>: the row is a proper
  segment, its columns increase strictly and lie below the column count, and, when the
  tolerance is not positive, its entries are those of \<open>a\<close> plus those of \<open>b\<close> under \<open>f\<close>.
\<close>

definition row_ok :: "(complex \<Rightarrow> complex) \<Rightarrow> real \<Rightarrow> CSR \<Rightarrow> CSR \<Rightarrow> CSR \<Rightarrow> nat \<Rightarrow> bool" where
  "row_ok f tol a b c r \<longleftrightarrow>
     row_index c ! r \<le> row_index c ! (r + 1) \<and>
     sorted_wrt (<) (csr_row_cols c r) \<and>
     (\<forall>x \<in> set (csr_row_cols c r). x < snd (shape a)) \<and>
     (tol \<le> 0 \<longrightarrow>
        (\<forall>j. csr_entry c r j = csr_entry a r j + pick j (map (apsnd f) (csr_row b r))))"

text \<open>
  The buffer \<open>ys\<close> after \<^verbatim>\<open>zaxpy\<close> has read from a buffer \<open>xs\<close> that the call does not
  write, and after \<open>k\<close> rounds of the strided loop.
\<close>

definition axpy_list ::
  "nat \<Rightarrow> complex \<Rightarrow> complex list \<Rightarrow> nat \<Rightarrow> nat \<Rightarrow> complex list \<Rightarrow> nat \<Rightarrow> complex list" where
  "axpy_list n alpha xs xo incx ys yo =
     fold (\<lambda>i ys'. ys'[yo + i := alpha * xs ! (xo + i * incx) + ys' ! (yo + i)]) [0..<n] ys"

definition strided_list ::
  "nat \<Rightarrow> nat \<Rightarrow> nat \<Rightarrow> complex \<Rightarrow> complex list \<Rightarrow> complex list \<Rightarrow> complex list" where
  "strided_list k d1 d2 alpha xs ys =
     fold (\<lambda>idx ys'. axpy_list d1 alpha xs idx d2 ys' (idx * d1)) [0..<k] ys"

subsection \<open>Concrete inputs\<close>

text \<open>
  Two settings: tidy-up enabled with threshold \<open>1 / 10 ^ 12\<close>, and tidy-up disabled with
  the unassigned local of the kernel happening to hold 10. The matrices of the spec's
  scenarios: \<open>A = {(0,0): 1, (1,1): 2}\<close> and \<open>B = {(0,0): -1, (0,1): 3}\<close>, both 2 by 2;
  a 1 by 1 matrix without entries and one whose only stored value is 0; dense
  \<open>L = [[1,2],[3,4]]\<close> row-major and \<open>R = [[5,6],[7,8]]\<close> column-major.
\<close>

definition env_tidy :: env where
  "env_tidy = \<lparr>auto_tidyup = True, auto_tidyup_atol = 1 / 10 ^ 12, tol_unset = 0,
                fresh_idx = (\<lambda>_. 0), fresh_val = (\<lambda>_. 0)\<rparr>"

definition env_plain :: env where
  "env_plain = \<lparr>auto_tidyup = False, auto_tidyup_atol = 1 / 10 ^ 12, tol_unset = 10,
                 fresh_idx = (\<lambda>_. 0), fresh_val = (\<lambda>_. 0)\<rparr>"

definition ex_A :: CSR where
  "ex_A = \<lparr>shape = (2, 2), row_index = [0, 1, 2], col_index = [0, 1], CSR.data = [1, 2]\<rparr>"

definition ex_B :: CSR where
  "ex_B = \<lparr>shape = (2, 2), row_index = [0, 2, 2], col_index = [0, 1], CSR.data = [- 1, 3]\<rparr>"

definition ex_Z :: CSR where
  "ex_Z = \<lparr>shape = (1, 1), row_index = [0, 0], col_index = [], CSR.data = []\<rparr>"

definition ex_E :: CSR where
  "ex_E = \<lparr>shape = (1, 1), row_index = [0, 1], col_index = [0], CSR.data = [0]\<rparr>"

definition ex_L :: Dense where
  "ex_L = \<lparr>shape = (2, 2), Dense.data = [1, 2, 3, 4], fortran = False\<rparr>"

definition ex_R :: Dense where
  "ex_R = \<lparr>shape = (2, 2), Dense.data = [5, 7, 6, 8], fortran = True\<rparr>"

definition env_zero :: env where
  "env_zero = \<lparr>auto_tidyup = True, auto_tidyup_atol = 0, tol_unset = 10,
                fresh_idx = (\<lambda>_. 0), fresh_val = (\<lambda>_. 0)\<rparr>"

definition ex_M23 :: CSR where
  "ex_M23 = \<lparr>shape = (2, 3), row_index = [0, 0, 0], col_index = [], CSR.data = []\<rparr>"

definition ex_M32 :: CSR where
  "ex_M32 = \<lparr>shape = (3, 2), row_index = [0, 0, 0, 0], col_index = [], CSR.data = []\<rparr>"

definition ex_D23 :: Dense where
  "ex_D23 = \<lparr>shape = (2, 3), Dense.data = [1, 2, 3, 4, 5, 6], fortran = False\<rparr>"

definition ex_D32 :: Dense where
  "ex_D32 = \<lparr>shape = (3, 2), Dense.data = [1, 2, 3, 4, 5, 6], fortran = False\<rparr>"

definition ex_big :: Dense where
  "ex_big = \<lparr>shape = (65536, 32768), Dense.data = replicate (65536 * 32768) 1,
              fortran = False\<rparr>"

section \<open>Proofs\<close>

subsection \<open>Segments, buffers and the accumulator\<close>


lemma seg_Nil: "q \<le> p \<Longrightarrow> seg xs p q = []"
  by (simp add: seg_def)

lemma seg_Cons: "p < q \<Longrightarrow> q \<le> length xs \<Longrightarrow> seg xs p q = xs ! p # seg xs (Suc p) q"
proof -
  assume a: "p < q" "q \<le> length xs"
  then have d: "drop p xs = xs ! p # drop (Suc p) xs"
    by (simp add: Cons_nth_drop_Suc)
  from a have "q - p = Suc (q - Suc p)" by simp
  with d show ?thesis by (simp add: seg_def)
qed

lemma length_seg: "q \<le> length xs \<Longrightarrow> length (seg xs p q) = q - p"
  by (simp add: seg_def)

lemma entries_from_Nil: "q \<le> p \<Longrightarrow> entries_from m p q = []"
  by (simp add: entries_from_def seg_Nil)

lemma entries_from_Cons:
  "p < q \<Longrightarrow> q \<le> length (col_index m) \<Longrightarrow> q \<le> length (CSR.data m) \<Longrightarrow>
   entries_from m p q = (col_index m ! p, CSR.data m ! p) # entries_from m (Suc p) q"
  by (simp add: entries_from_def seg_Cons)

lemma pick_Nil [simp]: "pick j [] = 0"
  by (simp add: pick_def)

lemma pick_Cons [simp]: "pick j (e # es) = (if fst e = j then snd e else 0) + pick j es"
  by (simp add: pick_def)

lemma acc_scatter_simps [simp]:
  "values (acc_scatter acc v p) = (values acc)[p := values acc ! p + v]"
  "set (nonzero (acc_scatter acc v p)) = insert p (set (nonzero acc))"
  "distinct (nonzero acc) \<Longrightarrow> distinct (nonzero (acc_scatter acc v p))"
  by (auto simp: acc_scatter_def)

lemma merge_loop_spec:
  assumes "n = (pam - pa) + (pbm - pb)"
    and "pam \<le> length (col_index a)" "pam \<le> length (CSR.data a)"
    and "pbm \<le> length (col_index b)" "pbm \<le> length (CSR.data b)"
    and "\<forall>k. pa \<le> k \<and> k < pam \<longrightarrow> col_index a ! k < ncols"
    and "\<forall>k. pb \<le> k \<and> k < pbm \<longrightarrow> col_index b ! k < ncols"
    and "ca = (if pa < pam then col_index a ! pa else ncols + 1)"
    and "cb = (if pb < pbm then col_index b ! pb else ncols + 1)"
    and "ncols \<le> length (values acc)"
  shows "\<exists>acc'. merge_loop f a b ncols pam pbm pa pb ca cb acc = Some acc' \<and>
           length (values acc') = length (values acc) \<and>
           (\<forall>j < length (values acc). values acc' ! j =
              values acc ! j + pick j (entries_from a pa pam)
                + pick j (map (apsnd f) (entries_from b pb pbm))) \<and>
           set (nonzero acc') =
             set (nonzero acc) \<union> set (seg (col_index a) pa pam) \<union> set (seg (col_index b) pb pbm) \<and>
           (distinct (nonzero acc) \<longrightarrow> distinct (nonzero acc'))"
  using assms
proof (induction n arbitrary: pa pb ca cb acc)
  case 0
  then have "\<not> (pa < pam \<or> pb < pbm)" by simp
  then show ?case
    by (subst merge_loop.simps) (simp add: entries_from_Nil seg_Nil)
next
  case (Suc n)
  then have more: "pa < pam \<or> pb < pbm" by linarith
  show ?case
  proof (cases "ca < cb")
    case True
    have pa: "pa < pam"
    proof (rule ccontr)
      assume "\<not> pa < pam"
      with Suc.prems more have "pb < pbm" "ca = ncols + 1" by simp_all
      with Suc.prems have "cb < ncols" by simp
      with True \<open>ca = ncols + 1\<close> show False by simp
    qed
    let ?acc = "acc_scatter acc (CSR.data a ! pa) ca"
    let ?ca = "if pa + 1 < pam then col_index a ! (pa + 1) else ncols + 1"
    have ca: "ca = col_index a ! pa" "ca < ncols" using pa Suc.prems by simp_all
    have "\<exists>acc'. merge_loop f a b ncols pam pbm (pa + 1) pb ?ca cb ?acc = Some acc' \<and>
           length (values acc') = length (values ?acc) \<and>
           (\<forall>j < length (values ?acc). values acc' ! j =
              values ?acc ! j + pick j (entries_from a (pa + 1) pam)
                + pick j (map (apsnd f) (entries_from b pb pbm))) \<and>
           set (nonzero acc') =
             set (nonzero ?acc) \<union> set (seg (col_index a) (pa + 1) pam) \<union> set (seg (col_index b) pb pbm) \<and>
           (distinct (nonzero ?acc) \<longrightarrow> distinct (nonzero acc'))"
      using Suc.prems pa by (intro Suc.IH) auto
    then obtain acc' where r: "merge_loop f a b ncols pam pbm (pa + 1) pb ?ca cb ?acc = Some acc'"
      "length (values acc') = length (values ?acc)"
      "\<forall>j < length (values ?acc). values acc' ! j =
              values ?acc ! j + pick j (entries_from a (pa + 1) pam)
                + pick j (map (apsnd f) (entries_from b pb pbm))"
      "set (nonzero acc') =
             set (nonzero ?acc) \<union> set (seg (col_index a) (pa + 1) pam) \<union> set (seg (col_index b) pb pbm)"
      "distinct (nonzero ?acc) \<longrightarrow> distinct (nonzero acc')"
      by blast
    have step: "merge_loop f a b ncols pam pbm pa pb ca cb acc = Some acc'"
      using True more r(1) by (subst merge_loop.simps) simp
    have ef: "entries_from a pa pam = (ca, CSR.data a ! pa) # entries_from a (Suc pa) pam"
      using pa Suc.prems ca by (simp add: entries_from_Cons)
    have sg: "seg (col_index a) pa pam = ca # seg (col_index a) (Suc pa) pam"
      using pa Suc.prems ca by (simp add: seg_Cons)
    have vals: "\<forall>j < length (values acc). values acc' ! j =
              values acc ! j + pick j (entries_from a pa pam)
                + pick j (map (apsnd f) (entries_from b pb pbm))"
      using r(3) ca Suc.prems(10) by (auto simp: ef nth_list_update)
    show ?thesis
      using step r(2,4,5) vals by (auto simp: sg)
  next
    case False
    have pb: "pb < pbm"
    proof (rule ccontr)
      assume "\<not> pb < pbm"
      with Suc.prems more have "pa < pam" "cb = ncols + 1" by simp_all
      with Suc.prems have "ca < ncols" by simp
      with False \<open>cb = ncols + 1\<close> show False by simp
    qed
    let ?acc = "acc_scatter acc (f (CSR.data b ! pb)) cb"
    let ?cb = "if pb + 1 < pbm then col_index b ! (pb + 1) else ncols + 1"
    have cb: "cb = col_index b ! pb" "cb < ncols" using pb Suc.prems by simp_all
    have "\<exists>acc'. merge_loop f a b ncols pam pbm pa (pb + 1) ca ?cb ?acc = Some acc' \<and>
           length (values acc') = length (values ?acc) \<and>
           (\<forall>j < length (values ?acc). values acc' ! j =
              values ?acc ! j + pick j (entries_from a pa pam)
                + pick j (map (apsnd f) (entries_from b (pb + 1) pbm))) \<and>
           set (nonzero acc') =
             set (nonzero ?acc) \<union> set (seg (col_index a) pa pam) \<union> set (seg (col_index b) (pb + 1) pbm) \<and>
           (distinct (nonzero ?acc) \<longrightarrow> distinct (nonzero acc'))"
      using Suc.prems pb by (intro Suc.IH) auto
    then obtain acc' where r: "merge_loop f a b ncols pam pbm pa (pb + 1) ca ?cb ?acc = Some acc'"
      "length (values acc') = length (values ?acc)"
      "\<forall>j < length (values ?acc). values acc' ! j =
              values ?acc ! j + pick j (entries_from a pa pam)
                + pick j (map (apsnd f) (entries_from b (pb + 1) pbm))"
      "set (nonzero acc') =
             set (nonzero ?acc) \<union> set (seg (col_index a) pa pam) \<union> set (seg (col_index b) (pb + 1) pbm)"
      "distinct (nonzero ?acc) \<longrightarrow> distinct (nonzero acc')"
      by blast
    have step: "merge_loop f a b ncols pam pbm pa pb ca cb acc = Some acc'"
      using False more r(1) by (subst merge_loop.simps) simp
    have ef: "entries_from b pb pbm = (cb, CSR.data b ! pb) # entries_from b (Suc pb) pbm"
      using pb Suc.prems cb by (simp add: entries_from_Cons)
    have sg: "seg (col_index b) pb pbm = cb # seg (col_index b) (Suc pb) pbm"
      using pb Suc.prems cb by (simp add: seg_Cons)
    have vals: "\<forall>j < length (values acc). values acc' ! j =
              values acc ! j + pick j (entries_from a pa pam)
                + pick j (map (apsnd f) (entries_from b pb pbm))"
      using r(3) cb Suc.prems(10) by (auto simp: ef nth_list_update)
    show ?thesis
      using step r(2,4,5) vals by (auto simp: sg)
  qed
qed


lemma length_write_seq [simp]: "length (write_seq buf off xs) = length buf"
  by (induction xs arbitrary: buf off) simp_all

lemma write_seq_eq:
  "off + length xs \<le> length buf \<Longrightarrow>
   write_seq buf off xs = take off buf @ xs @ drop (off + length xs) buf"
proof (induction xs arbitrary: buf off)
  case Nil
  then show ?case by simp
next
  case (Cons x xs)
  then have "off < length buf" by simp
  then have "take (Suc off) (buf[off := x]) = take off buf @ [x]"
    by (simp add: take_Suc_conv_app_nth)
  with Cons show ?case by simp
qed

lemma take_write_seq:
  "off + length xs \<le> length buf \<Longrightarrow> m \<le> off \<Longrightarrow> take m (write_seq buf off xs) = take m buf"
  by (simp add: write_seq_eq min_def)

lemma seg_write_seq:
  "off + length xs \<le> length buf \<Longrightarrow> seg (write_seq buf off xs) off (off + length xs) = xs"
  by (simp add: write_seq_eq seg_def)

lemma seg_take: "e \<le> m \<Longrightarrow> seg (take m xs) s e = seg xs s e"
  by (simp add: seg_def drop_take min_def)

lemma seg_cong_take:
  assumes "take m xs = take m ys" "e \<le> m"
  shows "seg xs s e = seg ys s e"
proof -
  have "seg xs s e = seg (take m xs) s e" using assms(2) by (simp add: seg_take)
  also have "\<dots> = seg (take m ys) s e" using assms(1) by simp
  also have "\<dots> = seg ys s e" using assms(2) by (simp add: seg_take)
  finally show ?thesis .
qed

lemma nth_cong_take:
  assumes "take m xs = take m ys" "i < m"
  shows "xs ! i = ys ! i"
proof -
  have "xs ! i = take m xs ! i" using assms(2) by simp
  also have "\<dots> = take m ys ! i" using assms(1) by simp
  also have "\<dots> = ys ! i" using assms(2) by simp
  finally show ?thesis .
qed

lemma nth_in_seg: "p \<le> i \<Longrightarrow> i < q \<Longrightarrow> q \<le> length xs \<Longrightarrow> xs ! i \<in> set (seg xs p q)"
proof -
  assume a: "p \<le> i" "i < q" "q \<le> length xs"
  then have "seg xs p q ! (i - p) = xs ! i" by (simp add: seg_def)
  moreover from a have "i - p < length (seg xs p q)" by (simp add: seg_def)
  ultimately show ?thesis using nth_mem [of "i - p" "seg xs p q"] by simp
qed

lemma pick_absent: "j \<notin> fst ` set es \<Longrightarrow> pick j es = 0"
  by (induction es) auto

lemma pick_map_id: "pick j (map (apsnd (\<lambda>v. v)) es) = pick j es"
  by (induction es) auto

lemma pick_map_scale: "pick j (map (apsnd (\<lambda>v. scale * v)) es) = scale * pick j es"
  by (induction es) (auto simp: algebra_simps)

lemma pick_filter_map:
  "distinct xs \<Longrightarrow>
   pick j (filter P (map (\<lambda>c. (c, v c)) xs)) = (if j \<in> set xs \<and> P (j, v j) then v j else 0)"
  by (induction xs) auto

lemma pick_acc_entries:
  "distinct (nonzero acc) \<Longrightarrow>
   pick j (acc_entries acc tol) =
     (if j \<in> set (nonzero acc) \<and> \<not> cmod (values acc ! j) \<le> tol then values acc ! j else 0)"
  by (simp add: acc_entries_def pick_filter_map)

lemma fst_acc_entries:
  "map fst (acc_entries acc tol) =
     filter (\<lambda>c. \<not> cmod (values acc ! c) \<le> tol) (sort (nonzero acc))"
  by (simp add: acc_entries_def filter_map o_def)

lemma sorted_acc_entries:
  "distinct (nonzero acc) \<Longrightarrow> sorted_wrt (<) (map fst (acc_entries acc tol))"
  by (simp add: fst_acc_entries sorted_wrt_filter strict_sorted_iff)

lemma set_acc_entries: "set (map fst (acc_entries acc tol)) \<subseteq> set (nonzero acc)"
  by (auto simp: fst_acc_entries)

lemma length_acc_entries: "length (acc_entries acc tol) \<le> length (nonzero acc)"
proof -
  have "length (acc_entries acc tol)
          \<le> length (map (\<lambda>position. (position, values acc ! position)) (sort (nonzero acc)))"
    unfolding acc_entries_def by (rule length_filter_le)
  then show ?thesis by simp
qed

lemma zip_fst_snd: "zip (map fst es) (map snd es) = es"
  by (induction es) auto


subsection \<open>The merge kernels\<close>


lemma valid_csr_facts:
  assumes "valid_csr a"
  shows "length (row_index a) = fst (shape a) + 1"
    and "r \<le> r' \<Longrightarrow> r' \<le> fst (shape a) \<Longrightarrow> row_index a ! r \<le> row_index a ! r'"
    and "r \<le> fst (shape a) \<Longrightarrow> row_index a ! r \<le> length (col_index a)"
    and "r \<le> fst (shape a) \<Longrightarrow> row_index a ! r \<le> length (CSR.data a)"
    and "r < fst (shape a) \<Longrightarrow> x \<in> set (csr_row_cols a r) \<Longrightarrow> x < snd (shape a)"
    and "r < fst (shape a) \<Longrightarrow> sorted_wrt (<) (csr_row_cols a r)"
    and "row_index a ! 0 = 0"
proof -
  show len: "length (row_index a) = fst (shape a) + 1"
    using assms by (simp add: valid_csr_def)
  have srt: "sorted (row_index a)" using assms by (simp add: valid_csr_def)
  show mono: "r \<le> r' \<Longrightarrow> r' \<le> fst (shape a) \<Longrightarrow> row_index a ! r \<le> row_index a ! r'" for r r'
    using srt len by (simp add: sorted_nth_mono)
  have "csr_nnz a \<le> length (col_index a)" "csr_nnz a \<le> length (CSR.data a)"
    using assms by (simp_all add: valid_csr_def)
  then show "r \<le> fst (shape a) \<Longrightarrow> row_index a ! r \<le> length (col_index a)"
    and "r \<le> fst (shape a) \<Longrightarrow> row_index a ! r \<le> length (CSR.data a)"
    using mono [of r "fst (shape a)"] by (simp_all add: csr_nnz_def)
  show "r < fst (shape a) \<Longrightarrow> x \<in> set (csr_row_cols a r) \<Longrightarrow> x < snd (shape a)"
    using assms by (simp add: valid_csr_def)
  show "r < fst (shape a) \<Longrightarrow> sorted_wrt (<) (csr_row_cols a r)"
    using assms by (simp add: valid_csr_def)
  show "row_index a ! 0 = 0" using assms by (simp add: valid_csr_def)
qed

lemma length_nonzero_bound:
  assumes "distinct xs" "set xs = A \<union> set ys \<union> set zs" "A = {}"
  shows "length xs \<le> length ys + length zs"
proof -
  have "length xs = card (set xs)" using assms(1) by (simp add: distinct_card)
  also have "\<dots> \<le> card (set ys) + card (set zs)" using assms(2,3) by (simp add: card_Un_le)
  also have "\<dots> \<le> length ys + length zs" by (simp add: add_mono card_length)
  finally show ?thesis .
qed


lemma row_step:
  assumes va: "valid_csr a" and vb: "valid_csr b" and sh: "shape b = shape a"
    and k: "k < fst (shape a)"
    and ncols: "ncols = snd (shape a)"
    and acc: "acc = \<lparr>values = replicate ncols 0, nonzero = []\<rparr>"
    and pa: "pa = row_index a ! k" and pam: "pam = row_index a ! (k + 1)"
    and pb: "pb = row_index b ! k" and pbm: "pbm = row_index b ! (k + 1)"
    and ca: "ca = (if pa < pam then col_index a ! pa else ncols + 1)"
    and cb: "cb = (if pb < pbm then col_index b ! pb else ncols + 1)"
  shows "\<exists>acc1. merge_loop f a b ncols pam pbm pa pb ca cb acc = Some acc1 \<and>
           acc_reset acc1 = acc \<and>
           sorted_wrt (<) (map fst (acc_entries acc1 tol)) \<and>
           (\<forall>x \<in> set (map fst (acc_entries acc1 tol)). x < ncols) \<and>
           length (acc_entries acc1 tol) \<le> (pam - pa) + (pbm - pb) \<and>
           (tol \<le> 0 \<longrightarrow> (\<forall>j. pick j (acc_entries acc1 tol) =
               csr_entry a k j + pick j (map (apsnd f) (csr_row b k))))"
proof -
  have kb: "k < fst (shape b)" using k sh by simp
  have la: "pam \<le> length (col_index a)" "pam \<le> length (CSR.data a)"
    using valid_csr_facts(3,4) [OF va, of "k + 1"] k pam by simp_all
  have lb: "pbm \<le> length (col_index b)" "pbm \<le> length (CSR.data b)"
    using valid_csr_facts(3,4) [OF vb, of "k + 1"] kb pbm by simp_all
  have sega: "seg (col_index a) pa pam = csr_row_cols a k"
    and segb: "seg (col_index b) pb pbm = csr_row_cols b k"
    by (simp_all add: csr_row_cols_def pa pam pb pbm)
  have ina: "\<forall>i. pa \<le> i \<and> i < pam \<longrightarrow> col_index a ! i < ncols"
  proof (intro allI impI)
    fix i assume "pa \<le> i \<and> i < pam"
    then have "col_index a ! i \<in> set (seg (col_index a) pa pam)"
      using la by (simp add: nth_in_seg)
    then show "col_index a ! i < ncols"
      using valid_csr_facts(5) [OF va k] sega ncols by simp
  qed
  have inb: "\<forall>i. pb \<le> i \<and> i < pbm \<longrightarrow> col_index b ! i < ncols"
  proof (intro allI impI)
    fix i assume "pb \<le> i \<and> i < pbm"
    then have "col_index b ! i \<in> set (seg (col_index b) pb pbm)"
      using lb by (simp add: nth_in_seg)
    then show "col_index b ! i < ncols"
      using valid_csr_facts(5) [OF vb kb] segb ncols sh by simp
  qed
  have lv: "ncols \<le> length (values acc)" by (simp add: acc)
  from merge_loop_spec [OF refl la lb ina inb ca cb lv, of f]
  obtain acc1 where m: "merge_loop f a b ncols pam pbm pa pb ca cb acc = Some acc1"
    and len: "length (values acc1) = length (values acc)"
    and vals: "\<forall>j < length (values acc). values acc1 ! j =
              values acc ! j + pick j (entries_from a pa pam)
                + pick j (map (apsnd f) (entries_from b pb pbm))"
    and nz: "set (nonzero acc1) =
             set (nonzero acc) \<union> set (seg (col_index a) pa pam) \<union> set (seg (col_index b) pb pbm)"
    and dist: "distinct (nonzero acc) \<longrightarrow> distinct (nonzero acc1)"
    by blast
  have d1: "distinct (nonzero acc1)" using dist by (simp add: acc)
  have rs: "acc_reset acc1 = acc" using len by (simp add: acc_reset_def acc)
  have rowa: "entries_from a pa pam = csr_row a k" and rowb: "entries_from b pb pbm = csr_row b k"
    by (simp_all add: csr_row_def pa pam pb pbm)
  have nz': "set (nonzero acc1) = set (csr_row_cols a k) \<union> set (csr_row_cols b k)"
    using nz by (simp add: acc sega segb)
  have below: "\<forall>x \<in> set (nonzero acc1). x < ncols"
    using nz' valid_csr_facts(5) [OF va k] valid_csr_facts(5) [OF vb kb] ncols sh by auto
  have vals': "\<forall>j < ncols. values acc1 ! j =
                 csr_entry a k j + pick j (map (apsnd f) (csr_row b k))"
    using vals by (simp add: acc rowa rowb csr_entry_def)
  have s: "sorted_wrt (<) (map fst (acc_entries acc1 tol))"
    using d1 by (rule sorted_acc_entries)
  have b: "\<forall>x \<in> set (map fst (acc_entries acc1 tol)). x < ncols"
    using set_acc_entries [of acc1 tol] below by blast
  have "length (nonzero acc1) \<le> length (seg (col_index a) pa pam) + length (seg (col_index b) pb pbm)"
    using d1 nz by (rule length_nonzero_bound) (simp add: acc)
  then have "length (nonzero acc1) \<le> (pam - pa) + (pbm - pb)"
    using la lb by (simp add: length_seg)
  then have l: "length (acc_entries acc1 tol) \<le> (pam - pa) + (pbm - pb)"
    using length_acc_entries [of acc1 tol] by linarith
  have p: "tol \<le> 0 \<longrightarrow> (\<forall>j. pick j (acc_entries acc1 tol) =
               csr_entry a k j + pick j (map (apsnd f) (csr_row b k)))"
  proof (intro impI allI)
    fix j assume tol: "tol \<le> 0"
    show "pick j (acc_entries acc1 tol) = csr_entry a k j + pick j (map (apsnd f) (csr_row b k))"
    proof (cases "j \<in> set (nonzero acc1)")
      case True
      then have j: "j < ncols" using below by simp
      have "cmod (values acc1 ! j) \<le> tol \<Longrightarrow> values acc1 ! j = 0"
      proof -
        assume "cmod (values acc1 ! j) \<le> tol"
        with tol have "cmod (values acc1 ! j) \<le> 0" by linarith
        then show "values acc1 ! j = 0" by simp
      qed
      then have "pick j (acc_entries acc1 tol) = values acc1 ! j"
        using True d1 by (auto simp: pick_acc_entries)
      then show ?thesis using vals' j by simp
    next
      case False
      have "fst ` set (csr_row a k) \<subseteq> set (csr_row_cols a k)"
        by (auto simp: csr_row_def entries_from_def csr_row_cols_def dest: set_zip_leftD)
      then have a0: "pick j (csr_row a k) = 0"
        using False nz' by (intro pick_absent) auto
      have "fst ` set (map (apsnd f) (csr_row b k)) \<subseteq> set (csr_row_cols b k)"
        by (auto simp: csr_row_def entries_from_def csr_row_cols_def dest: set_zip_leftD)
      then have b0: "pick j (map (apsnd f) (csr_row b k)) = 0"
        using False nz' by (intro pick_absent) auto
      show ?thesis using False d1 a0 b0 by (simp add: pick_acc_entries csr_entry_def)
    qed
  qed
  show ?thesis using m rs s b l p by blast
qed


lemma take_cong_le:
  assumes "take m xs = take m ys" "k \<le> m"
  shows "take k xs = take k ys"
proof -
  have "take k xs = take k (take m xs)" using assms(2) by (simp add: min_def)
  also have "\<dots> = take k (take m ys)" using assms(1) by simp
  also have "\<dots> = take k ys" using assms(2) by (simp add: min_def)
  finally show ?thesis .
qed

lemma add_csr_rows_spec:
  assumes va: "valid_csr a" and vb: "valid_csr b" and sh: "shape b = shape a"
    and n: "n = fst (shape a)" and ncols: "ncols = snd (shape a)"
    and acc: "acc = \<lparr>values = replicate ncols 0, nonzero = []\<rparr>"
    and m: "m = n - k" and kn: "k \<le> n"
    and pam: "pam = row_index a ! k" and pbm: "pbm = row_index b ! k"
    and lr: "length (row_index c) = n + 1"
    and lc: "length (col_index c) = cap" and ld: "length (CSR.data c) = cap"
    and cap: "nnz + (csr_nnz a - pam) + (csr_nnz b - pbm) \<le> cap"
    and rk: "row_index c ! k = nnz"
  shows "\<exists>nnz' acc' c'.
           add_csr_rows f tol a b [k..<n] pam pbm nnz acc c = Some (nnz', acc', c') \<and>
           shape c' = shape c \<and> length (row_index c') = n + 1 \<and>
           length (col_index c') = cap \<and> length (CSR.data c') = cap \<and>
           nnz' \<le> cap \<and> row_index c' ! n = nnz' \<and>
           take (k + 1) (row_index c') = take (k + 1) (row_index c) \<and>
           take nnz (col_index c') = take nnz (col_index c) \<and>
           take nnz (CSR.data c') = take nnz (CSR.data c) \<and>
           (\<forall>r. k \<le> r \<and> r < n \<longrightarrow> row_ok f tol a b c' r)"
  using m kn pam pbm lr lc ld cap rk
proof (induction m arbitrary: k pam pbm nnz c)
  case 0
  then have "k = n" by simp
  with 0 show ?case by auto
next
  case (Suc m)
  then have k: "k < n" by simp
  have ka: "k < fst (shape a)" using k n by simp
  define pam' where "pam' = row_index a ! (k + 1)"
  define pbm' where "pbm' = row_index b ! (k + 1)"
  define ca where "ca = (if pam < pam' then col_index a ! pam else ncols + 1)"
  define cb where "cb = (if pbm < pbm' then col_index b ! pbm else ncols + 1)"
  from row_step [OF va vb sh ka ncols acc Suc.prems(3) pam'_def Suc.prems(4) pbm'_def ca_def cb_def,
      of f tol]
  obtain acc1 where ml: "merge_loop f a b ncols pam' pbm' pam pbm ca cb acc = Some acc1"
    and rs: "acc_reset acc1 = acc"
    and srt: "sorted_wrt (<) (map fst (acc_entries acc1 tol))"
    and bel: "\<forall>x \<in> set (map fst (acc_entries acc1 tol)). x < ncols"
    and len: "length (acc_entries acc1 tol) \<le> (pam' - pam) + (pbm' - pbm)"
    and pk: "tol \<le> 0 \<longrightarrow> (\<forall>j. pick j (acc_entries acc1 tol) =
               csr_entry a k j + pick j (map (apsnd f) (csr_row b k)))"
    by blast
  define es where "es = acc_entries acc1 tol"
  define nnz1 where "nnz1 = nnz + length es"
  define c1 where "c1 = c\<lparr>CSR.data := write_seq (CSR.data c) nnz (map snd es),
                          col_index := write_seq (col_index c) nnz (map fst es),
                          row_index := (row_index c)[k + 1 := nnz1]\<rparr>"
  have unfold: "add_csr_rows f tol a b [k..<n] pam pbm nnz acc c =
                add_csr_rows f tol a b [Suc k..<n] pam' pbm' nnz1 acc c1"
  proof -
    have "[k..<n] = k # [Suc k..<n]" using k by (simp add: upt_conv_Cons)
    moreover have "add_csr_rows f tol a b (k # [Suc k..<n]) pam pbm nnz acc c =
      (case merge_loop f a b ncols pam' pbm' pam pbm ca cb acc of
         None \<Rightarrow> None
       | Some acc1 \<Rightarrow>
           (case acc_gather acc1 (CSR.data c) (col_index c) nnz tol of
              (n', vals, cols) \<Rightarrow>
                add_csr_rows f tol a b [Suc k..<n] pam' pbm' (nnz + n') (acc_reset acc1)
                  (c\<lparr>CSR.data := vals, col_index := cols,
                     row_index := (row_index c)[k + 1 := nnz + n']\<rparr>)))"
      unfolding add_csr_rows.simps Let_def pam'_def pbm'_def ca_def cb_def ncols
      by (rule refl)
    ultimately show ?thesis
      by (simp only: ml rs option.case acc_gather_def Let_def prod.case es_def nnz1_def c1_def)
  qed
  have monoa: "pam \<le> pam'" "pam' \<le> csr_nnz a"
    using valid_csr_facts(2) [OF va, of k "k + 1"] valid_csr_facts(2) [OF va, of "k + 1" n]
      k n Suc.prems(3) by (simp_all add: pam'_def csr_nnz_def)
  have kb: "n = fst (shape b)" using n sh by simp
  have monob: "pbm \<le> pbm'" "pbm' \<le> csr_nnz b"
    using valid_csr_facts(2) [OF vb, of k "k + 1"] valid_csr_facts(2) [OF vb, of "k + 1" n]
      k kb Suc.prems(4) by (simp_all add: pbm'_def csr_nnz_def)
  have cap1: "nnz1 + (csr_nnz a - pam') + (csr_nnz b - pbm') \<le> cap"
    using Suc.prems(8) len monoa monob by (simp add: nnz1_def es_def)
  have room: "nnz + length es \<le> cap" using cap1 by (simp add: nnz1_def)
  have l1: "length (row_index c1) = n + 1" "length (col_index c1) = cap"
    "length (CSR.data c1) = cap"
    using Suc.prems(5,6,7) by (simp_all add: c1_def)
  have r1: "row_index c1 ! (Suc k) = nnz1"
    using k Suc.prems(5) by (simp add: c1_def)
  have m1: "m = n - Suc k" using Suc.prems(1) by simp
  have k1: "Suc k \<le> n" using k by simp
  from Suc.IH [OF m1 k1 _ _ l1 _ r1, of pam' pbm'] cap1
  obtain nnz' acc' c' where
    run: "add_csr_rows f tol a b [Suc k..<n] pam' pbm' nnz1 acc c1 = Some (nnz', acc', c')"
    and shp: "shape c' = shape c1"
    and l': "length (row_index c') = n + 1" "length (col_index c') = cap"
      "length (CSR.data c') = cap"
    and nn: "nnz' \<le> cap" "row_index c' ! n = nnz'"
    and tr: "take (Suc k + 1) (row_index c') = take (Suc k + 1) (row_index c1)"
    and tc: "take nnz1 (col_index c') = take nnz1 (col_index c1)"
    and td: "take nnz1 (CSR.data c') = take nnz1 (CSR.data c1)"
    and rows: "\<forall>r. Suc k \<le> r \<and> r < n \<longrightarrow> row_ok f tol a b c' r"
    by (auto simp: pam'_def pbm'_def)
  have nle: "nnz \<le> nnz1" by (simp add: nnz1_def)
  have t_r: "take (k + 1) (row_index c') = take (k + 1) (row_index c)"
  proof -
    have "take (k + 1) (row_index c') = take (k + 1) (row_index c1)"
      using tr by (rule take_cong_le) simp
    then show ?thesis by (simp add: c1_def)
  qed
  have t_c: "take nnz (col_index c') = take nnz (col_index c)"
  proof -
    have "take nnz (col_index c') = take nnz (col_index c1)"
      using tc nle by (rule take_cong_le)
    then show ?thesis using room Suc.prems(6) by (simp add: c1_def take_write_seq)
  qed
  have t_d: "take nnz (CSR.data c') = take nnz (CSR.data c)"
  proof -
    have "take nnz (CSR.data c') = take nnz (CSR.data c1)"
      using td nle by (rule take_cong_le)
    then show ?thesis using room Suc.prems(7) by (simp add: c1_def take_write_seq)
  qed
  have rik: "row_index c' ! k = nnz"
  proof -
    have "row_index c' ! k = row_index c1 ! k" using tr by (rule nth_cong_take) simp
    then show ?thesis using Suc.prems(9) by (simp add: c1_def)
  qed
  have rik1: "row_index c' ! (k + 1) = nnz1"
  proof -
    have "row_index c' ! (k + 1) = row_index c1 ! (k + 1)" using tr by (rule nth_cong_take) simp
    then show ?thesis using r1 by simp
  qed
  have segc: "seg (col_index c') nnz nnz1 = map fst es"
  proof -
    have "seg (col_index c') nnz nnz1 = seg (col_index c1) nnz nnz1"
      using tc by (rule seg_cong_take) simp
    then show ?thesis
      using room Suc.prems(6) seg_write_seq [of nnz "map fst es" "col_index c"]
      by (simp add: c1_def nnz1_def)
  qed
  have segd: "seg (CSR.data c') nnz nnz1 = map snd es"
  proof -
    have "seg (CSR.data c') nnz nnz1 = seg (CSR.data c1) nnz nnz1"
      using td by (rule seg_cong_take) simp
    then show ?thesis
      using room Suc.prems(7) seg_write_seq [of nnz "map snd es" "CSR.data c"]
      by (simp add: c1_def nnz1_def)
  qed
  have rowk: "csr_row_cols c' k = map fst es" "csr_row c' k = es"
    using rik rik1 segc segd
    by (simp_all add: csr_row_cols_def csr_row_def entries_from_def zip_fst_snd)
  have okk: "row_ok f tol a b c' k"
    unfolding row_ok_def
    using rik rik1 nle rowk srt bel pk by (simp add: es_def csr_entry_def ncols)
  have all_rows: "\<forall>r. k \<le> r \<and> r < n \<longrightarrow> row_ok f tol a b c' r"
  proof (intro allI impI)
    fix r assume r: "k \<le> r \<and> r < n"
    show "row_ok f tol a b c' r"
    proof (cases "r = k")
      case True
      then show ?thesis using okk by simp
    next
      case False
      with r have "Suc k \<le> r \<and> r < n" by simp
      then show ?thesis using rows by simp
    qed
  qed
  have shp': "shape c' = shape c" using shp by (simp add: c1_def)
  show ?case
    using unfold run shp' l' nn t_r t_c t_d all_rows by simp
qed


lemma kernel_rows:
  assumes va: "valid_csr a" and vb: "valid_csr b" and sh: "shape b = shape a"
    and out0: "out0 = csr_empty e (fst (shape a)) (snd (shape a)) (csr_nnz a + csr_nnz b)"
    and acc: "acc = acc_alloc (snd (shape a))"
  shows "\<exists>n acc' out.
           add_csr_rows f tol a b [0..<fst (shape a)] 0 0 0 acc
             (out0\<lparr>row_index := (row_index out0)[0 := 0]\<rparr>) = Some (n, acc', out) \<and>
           shape out = shape a \<and> valid_csr out \<and> csr_nnz out = n \<and>
           (tol \<le> 0 \<longrightarrow> (\<forall>i < fst (shape a). \<forall>j.
              csr_entry out i j = csr_entry a i j + pick j (map (apsnd f) (csr_row b i))))"
proof -
  define n where "n = fst (shape a)"
  define ncols where "ncols = snd (shape a)"
  define cap where "cap = csr_nnz a + csr_nnz b"
  define c where "c = out0\<lparr>row_index := (row_index out0)[0 := 0]\<rparr>"
  have acc': "acc = \<lparr>values = replicate ncols 0, nonzero = []\<rparr>"
    by (simp add: acc acc_alloc_def ncols_def)
  have a0: "0 = row_index a ! 0" and b0: "0 = row_index b ! 0"
    using valid_csr_facts(7) [OF va] valid_csr_facts(7) [OF vb] by simp_all
  have lr: "length (row_index c) = n + 1" and lc: "length (col_index c) = cap"
    and ld: "length (CSR.data c) = cap" and shc: "shape c = shape a"
    by (simp_all add: c_def out0 csr_empty_def n_def cap_def)
  have c0: "row_index c ! 0 = 0" by (simp add: c_def out0 csr_empty_def)
  have capb: "0 + (csr_nnz a - 0) + (csr_nnz b - 0) \<le> cap" by (simp add: cap_def)
  from add_csr_rows_spec [OF va vb sh n_def ncols_def acc' _ _ a0 b0 lr lc ld capb c0,
      of "n - 0" f tol]
  obtain nnz' acc1 c' where
    run: "add_csr_rows f tol a b [0..<n] 0 0 0 acc c = Some (nnz', acc1, c')"
    and shp: "shape c' = shape c"
    and l': "length (row_index c') = n + 1" "length (col_index c') = cap"
      "length (CSR.data c') = cap"
    and nn: "nnz' \<le> cap" "row_index c' ! n = nnz'"
    and tr: "take (0 + 1) (row_index c') = take (0 + 1) (row_index c)"
    and rows: "\<forall>r. 0 \<le> r \<and> r < n \<longrightarrow> row_ok f tol a b c' r"
    by auto
  have sh': "shape c' = shape a" using shp shc by simp
  have z: "row_index c' ! 0 = 0"
  proof -
    have "row_index c' ! 0 = row_index c ! 0" using tr by (rule nth_cong_take) simp
    then show ?thesis using c0 by simp
  qed
  have srt: "sorted (row_index c')"
    unfolding sorted_iff_nth_Suc
  proof (intro allI impI)
    fix i assume "Suc i < length (row_index c')"
    then have "i < n" using l' by simp
    then have "row_ok f tol a b c' i" using rows by simp
    then show "row_index c' ! i \<le> row_index c' ! Suc i" by (simp add: row_ok_def)
  qed
  have nz: "csr_nnz c' = nnz'" using nn sh' by (simp add: csr_nnz_def n_def)
  have v: "valid_csr c'"
    unfolding valid_csr_def
    using l' z srt nz nn rows sh' by (auto simp: n_def row_ok_def)
  have ent: "tol \<le> 0 \<longrightarrow> (\<forall>i < fst (shape a). \<forall>j.
              csr_entry c' i j = csr_entry a i j + pick j (map (apsnd f) (csr_row b i)))"
    using rows by (auto simp: n_def row_ok_def)
  show ?thesis
    using run sh' v nz ent unfolding n_def c_def by blast
qed

lemma valid_csr_prefix_sum:
  assumes v: "valid_csr m" and k: "k \<le> fst (shape m)"
  shows "sum_list (map (\<lambda>r. length (csr_row_cols m r)) [0..<k]) = row_index m ! k"
  using k
proof (induction k)
  case 0
  then show ?case using valid_csr_facts(7) [OF v] by simp
next
  case (Suc k)
  have "row_index m ! (k + 1) \<le> length (col_index m)"
    using valid_csr_facts(3) [OF v, of "k + 1"] Suc.prems by simp
  then have "length (csr_row_cols m k) = row_index m ! (k + 1) - row_index m ! k"
    by (simp add: csr_row_cols_def length_seg)
  moreover have "row_index m ! k \<le> row_index m ! (k + 1)"
    using valid_csr_facts(2) [OF v, of k "k + 1"] Suc.prems by simp
  ultimately show ?case using Suc by simp
qed

lemma valid_csr_nnz_count:
  "valid_csr m \<Longrightarrow>
   csr_nnz m = sum_list (map (\<lambda>r. length (csr_row_cols m r)) [0..<fst (shape m)])"
  by (simp add: valid_csr_prefix_sum csr_nnz_def)


subsection \<open>The CSR entry point\<close>


lemma length_scale_fold [simp]:
  "length (fold (\<lambda>i d. d[i := d ! i * scale]) [0..<n] d) = length (d :: complex list)"
  by (induction n) simp_all

lemma scale_fold_eq:
  "n \<le> length d \<Longrightarrow>
   fold (\<lambda>i d. d[i := d ! i * scale]) [0..<n] d = map (\<lambda>v. v * scale) (take n d) @ drop n (d :: complex list)"
proof (induction n)
  case 0
  then show ?case by simp
next
  case (Suc n)
  then have n: "n < length d" by simp
  let ?d = "map (\<lambda>v. v * scale) (take n d) @ drop n d"
  have "fold (\<lambda>i d. d[i := d ! i * scale]) [0..<Suc n] d = ?d[n := ?d ! n * scale]"
    using Suc by simp
  also have "?d ! n = d ! n" using n by (simp add: nth_append)
  also have "?d[n := d ! n * scale] = map (\<lambda>v. v * scale) (take n d) @ (drop n d)[0 := d ! n * scale]"
    using n by (simp add: list_update_append)
  also have "(drop n d)[0 := d ! n * scale] = (d ! n * scale) # drop (Suc n) d"
    using n by (simp add: Cons_nth_drop_Suc [symmetric])
  also have "map (\<lambda>v. v * scale) (take n d) @ (d ! n * scale) # drop (Suc n) d
             = map (\<lambda>v. v * scale) (take (Suc n) d) @ drop (Suc n) d"
    using n by (simp add: take_Suc_conv_app_nth)
  finally show ?case .
qed

lemma seg_scaled:
  assumes "q \<le> n" "n \<le> length d"
  shows "seg (map (\<lambda>v. v * scale) (take n d) @ drop n d) p q = map (\<lambda>v. v * scale) (seg d p q)"
proof -
  have "take n (map (\<lambda>v. v * scale) (take n d) @ drop n d)
        = take n (map (\<lambda>v. v * scale) (take n d))"
    using assms by simp
  then have "seg (map (\<lambda>v. v * scale) (take n d) @ drop n d) p q
        = seg (map (\<lambda>v. v * scale) (take n d)) p q"
    using assms(1) by (rule seg_cong_take)
  also have "\<dots> = map (\<lambda>v. v * scale) (seg (take n d) p q)"
    by (simp add: seg_def take_map drop_map)
  also have "seg (take n d) p q = seg d p q" using assms by (simp add: seg_take)
  finally show ?thesis .
qed

lemma zip_map_snd: "zip xs (map g ys) = map (apsnd g) (zip xs ys)"
  by (induction xs arbitrary: ys) (auto simp: zip_Cons1 split: list.split) 

lemma pick_map_scale_right: "pick j (map (apsnd (\<lambda>v. v * scale)) es) = scale * pick j es"
  by (induction es) (auto simp: algebra_simps)

text \<open>The second fast path: a copy of \<open>right\<close> whose first \<open>nnz\<close> values are scaled.\<close>

lemma scaled_copy:
  assumes v: "valid_csr m"
    and out: "out = m\<lparr>CSR.data := fold (\<lambda>i d. d[i := d ! i * scale]) [0..<csr_nnz m] (CSR.data m)\<rparr>"
  shows "valid_csr out"
    and "CSR.data out = map (\<lambda>v. v * scale) (take (csr_nnz m) (CSR.data m)) @ drop (csr_nnz m) (CSR.data m)"
    and "i < fst (shape m) \<Longrightarrow> csr_entry out i j = scale * csr_entry m i j"
proof -
  have nl: "csr_nnz m \<le> length (CSR.data m)" using v by (simp add: valid_csr_def)
  show d: "CSR.data out = map (\<lambda>v. v * scale) (take (csr_nnz m) (CSR.data m)) @ drop (csr_nnz m) (CSR.data m)"
    using nl by (simp add: out scale_fold_eq)
  show "valid_csr out"
    using v by (simp add: valid_csr_def out csr_nnz_def csr_row_cols_def)
  assume i: "i < fst (shape m)"
  have q: "row_index m ! (i + 1) \<le> csr_nnz m"
    using valid_csr_facts(2) [OF v, of "i + 1" "fst (shape m)"] i by (simp add: csr_nnz_def)
  have "seg (CSR.data out) (row_index m ! i) (row_index m ! (i + 1))
        = map (\<lambda>v. v * scale) (seg (CSR.data m) (row_index m ! i) (row_index m ! (i + 1)))"
    unfolding d using q nl by (rule seg_scaled)
  then have "csr_row out i = map (apsnd (\<lambda>v. v * scale)) (csr_row m i)"
    by (simp add: csr_row_def entries_from_def out zip_map_snd)
  then show "csr_entry out i j = scale * csr_entry m i j"
    by (simp add: csr_entry_def pick_map_scale_right)
qed

text \<open>A valid matrix without stored entries expands to zero.\<close>

lemma empty_csr_entry:
  assumes v: "valid_csr m" and z: "csr_nnz m = 0" and i: "i < fst (shape m)"
  shows "csr_entry m i j = 0"
proof -
  have "row_index m ! (i + 1) \<le> csr_nnz m"
    using valid_csr_facts(2) [OF v, of "i + 1" "fst (shape m)"] i by (simp add: csr_nnz_def)
  then have "row_index m ! (i + 1) = 0" using z by simp
  then show ?thesis by (simp add: csr_entry_def csr_row_def entries_from_def seg_def)
qed


lemma add_csr_unfold:
  assumes "shape (h ! right) = shape (h ! left)"
  shows "add_csr e h left right scale =
     (if csr_nnz (h ! right) = 0 \<or> scale = 0 then Some (h @ [h ! left], Inr (length h))
      else if csr_nnz (h ! left) = 0 then
        Some (h @ [if scale \<noteq> 1
                   then (h ! right)\<lparr>CSR.data :=
                          fold (\<lambda>i d. d[i := d ! i * scale]) [0..<csr_nnz (h ! right)]
                            (CSR.data (h ! right))\<rparr>
                   else h ! right], Inr (length h))
      else
        (case (if scale = 1
               then priv_add_csr e (acc_alloc (snd (shape (h ! left)))) (h ! left) (h ! right)
                      (csr_empty e (fst (shape (h ! left))) (snd (shape (h ! left)))
                         (csr_nnz (h ! left) + csr_nnz (h ! right)))
               else priv_add_csr_scale e (acc_alloc (snd (shape (h ! left)))) (h ! left) (h ! right)
                      (csr_empty e (fst (shape (h ! left))) (snd (shape (h ! left)))
                         (csr_nnz (h ! left) + csr_nnz (h ! right))) scale) of
           None \<Rightarrow> None
         | Some (n, acc', out') \<Rightarrow> Some (new_obj h out')))"
  using assms
  by (simp add: add_csr_def priv_check_shape_def csr_copy_def new_obj_def Let_def)

lemma add_csr_main:
  assumes va: "valid_csr (h ! left)" and vb: "valid_csr (h ! right)"
    and sh: "shape (h ! right) = shape (h ! left)"
    and nz: "csr_nnz (h ! right) \<noteq> 0" "scale \<noteq> 0" "csr_nnz (h ! left) \<noteq> 0"
  shows "\<exists>out. add_csr e h left right scale = Some (h @ [out], Inr (length h)) \<and>
           shape out = shape (h ! left) \<and> valid_csr out \<and>
           (kernel_tol e \<le> 0 \<longrightarrow> (\<forall>i < fst (shape (h ! left)). \<forall>j.
              csr_entry out i j = csr_entry (h ! left) i j + scale * csr_entry (h ! right) i j))"
proof (cases "scale = 1")
  case True
  from kernel_rows [OF va vb sh refl refl, where e = e and f = "\<lambda>v. v" and tol = "kernel_tol e"]
  obtain n acc' out where
    run: "priv_add_csr e (acc_alloc (snd (shape (h ! left)))) (h ! left) (h ! right)
            (csr_empty e (fst (shape (h ! left))) (snd (shape (h ! left)))
               (csr_nnz (h ! left) + csr_nnz (h ! right))) = Some (n, acc', out)"
    and p: "shape out = shape (h ! left)" "valid_csr out"
      "kernel_tol e \<le> 0 \<longrightarrow> (\<forall>i < fst (shape (h ! left)). \<forall>j.
         csr_entry out i j = csr_entry (h ! left) i j
           + pick j (map (apsnd (\<lambda>v. v)) (csr_row (h ! right) i)))"
    unfolding priv_add_csr_def by blast
  have "add_csr e h left right scale = Some (h @ [out], Inr (length h))"
    using nz True run by (simp add: add_csr_unfold [OF sh] new_obj_def)
  then show ?thesis
    using p True by (auto simp: pick_map_id csr_entry_def)
next
  case False
  from kernel_rows [OF va vb sh refl refl, where e = e and f = "\<lambda>v. scale * v" and tol = "kernel_tol e"]
  obtain n acc' out where
    run: "priv_add_csr_scale e (acc_alloc (snd (shape (h ! left)))) (h ! left) (h ! right)
            (csr_empty e (fst (shape (h ! left))) (snd (shape (h ! left)))
               (csr_nnz (h ! left) + csr_nnz (h ! right))) scale = Some (n, acc', out)"
    and p: "shape out = shape (h ! left)" "valid_csr out"
      "kernel_tol e \<le> 0 \<longrightarrow> (\<forall>i < fst (shape (h ! left)). \<forall>j.
         csr_entry out i j = csr_entry (h ! left) i j
           + pick j (map (apsnd (\<lambda>v. scale * v)) (csr_row (h ! right) i)))"
    unfolding priv_add_csr_scale_def by blast
  have "add_csr e h left right scale = Some (h @ [out], Inr (length h))"
    using nz False run by (simp add: add_csr_unfold [OF sh] new_obj_def)
  then show ?thesis
    using p by (auto simp: pick_map_scale csr_entry_def)
qed

lemma add_csr_total:
  assumes va: "valid_csr (h ! left)" and vb: "valid_csr (h ! right)"
    and sh: "shape (h ! right) = shape (h ! left)"
  shows "\<exists>out. add_csr e h left right scale = Some (h @ [out], Inr (length h)) \<and>
           shape out = shape (h ! left) \<and> valid_csr out \<and>
           (kernel_tol e \<le> 0 \<longrightarrow> (\<forall>i < fst (shape (h ! left)). \<forall>j.
              csr_entry out i j = csr_entry (h ! left) i j + scale * csr_entry (h ! right) i j))"
proof -
  consider (first) "csr_nnz (h ! right) = 0 \<or> scale = 0"
    | (second) "csr_nnz (h ! right) \<noteq> 0" "scale \<noteq> 0" "csr_nnz (h ! left) = 0"
    | (main) "csr_nnz (h ! right) \<noteq> 0" "scale \<noteq> 0" "csr_nnz (h ! left) \<noteq> 0"
    by blast
  then show ?thesis
  proof cases
    case first
    have run: "add_csr e h left right scale = Some (h @ [h ! left], Inr (length h))"
      using first by (simp add: add_csr_unfold [OF sh])
    have "scale * csr_entry (h ! right) i j = 0" if "i < fst (shape (h ! left))" for i j
      using first that empty_csr_entry [OF vb, of i j] sh by auto
    then show ?thesis using run va by simp
  next
    case second
    let ?out = "if scale \<noteq> 1
                then (h ! right)\<lparr>CSR.data :=
                       fold (\<lambda>i d. d[i := d ! i * scale]) [0..<csr_nnz (h ! right)]
                         (CSR.data (h ! right))\<rparr>
                else h ! right"
    have run: "add_csr e h left right scale = Some (h @ [?out], Inr (length h))"
      using second by (simp add: add_csr_unfold [OF sh])
    have v: "valid_csr ?out" using scaled_copy(1) [OF vb refl] vb by simp
    have s: "shape ?out = shape (h ! left)" using sh by simp
    have "csr_entry ?out i j = csr_entry (h ! left) i j + scale * csr_entry (h ! right) i j"
      if "i < fst (shape (h ! left))" for i j
      using that scaled_copy(3) [OF vb refl, of i scale j] sh
        empty_csr_entry [OF va second(3) that, of j]
      by (cases "scale = 1") simp_all
    then show ?thesis using run v s by blast
  next
    case main
    then show ?thesis by (rule add_csr_main [OF va vb sh])
  qed
qed


subsection \<open>The dense kernels\<close>


lemma c_int_eq: "c_int n = (int n + 2 ^ 31) mod 2 ^ 32 - 2 ^ 31"
  using int_word_sint [of "int n", where 'a = 32] by (simp add: c_int_def)

lemma c_int_small: "n < 2 ^ 31 \<Longrightarrow> c_int n = int n"
  by (simp add: c_int_eq)

lemma c_int_le: "0 \<le> c_int n \<Longrightarrow> nat (c_int n) \<le> n"
  unfolding c_int_eq by (cases "n < 2 ^ 31") auto

lemma length_axpy_list [simp]: "length (axpy_list n alpha xs xo incx ys yo) = length ys"
  unfolding axpy_list_def by (induction n) simp_all

lemma axpy_list_Suc:
  "axpy_list (Suc n) alpha xs xo incx ys yo =
     (axpy_list n alpha xs xo incx ys yo)
       [yo + n := alpha * xs ! (xo + n * incx) + axpy_list n alpha xs xo incx ys yo ! (yo + n)]"
  by (simp add: axpy_list_def)

lemma axpy_list_0 [simp]: "axpy_list 0 alpha xs xo incx ys yo = ys"
  by (simp add: axpy_list_def)

lemma axpy_nth:
  "p < length ys \<Longrightarrow>
   axpy_list n alpha xs xo incx ys yo ! p =
     (if yo \<le> p \<and> p < yo + n then alpha * xs ! (xo + (p - yo) * incx) + ys ! p else ys ! p)"
proof (induction n)
  case 0
  then show ?case by auto
next
  case (Suc n)
  show ?case
  proof (cases "p = yo + n")
    case True
    then show ?thesis using Suc by (simp add: axpy_list_Suc)
  next
    case False
    then show ?thesis using Suc by (auto simp: axpy_list_Suc)
  qed
qed

lemma peek_poke_simps:
  "yr < length h \<Longrightarrow> poke (h[yr := Y]) yr p v = h[yr := Y\<lparr>Dense.data := (Dense.data Y)[p := v]\<rparr>]"
  "yr < length h \<Longrightarrow> peek (h[yr := Y]) yr p = Dense.data Y ! p"
  "xr \<noteq> yr \<Longrightarrow> peek (h[yr := Y]) xr p = Dense.data (h ! xr) ! p"
  by (simp_all add: poke_def peek_def)

lemma zaxpy_steps_distinct:
  assumes "xr \<noteq> yr" "yr < length h"
  shows "fold (\<lambda>i h'. poke h' yr (yo + i * 1)
                     (alpha * peek h' xr (xo + i * incx) + peek h' yr (yo + i * 1)))
           [0..<k] h
         = h[yr := (h ! yr)\<lparr>Dense.data :=
               axpy_list k alpha (Dense.data (h ! xr)) xo incx (Dense.data (h ! yr)) yo\<rparr>]"
proof (induction k)
  case 0
  then show ?case by simp
next
  case (Suc k)
  then show ?case using assms by (simp add: peek_poke_simps axpy_list_Suc)
qed

lemma zaxpy_distinct:
  assumes "xr \<noteq> yr" "yr < length h"
  shows "zaxpy n alpha (xr, xo) incx (yr, yo) 1 h
         = h[yr := (h ! yr)\<lparr>Dense.data :=
               axpy_list (nat n) alpha (Dense.data (h ! xr)) xo incx (Dense.data (h ! yr)) yo\<rparr>]"
  using zaxpy_steps_distinct [OF assms, of yo alpha xo incx "nat n"]
  by (simp add: zaxpy_def)

lemma axpy_alias_step:
  "(axpy_list k alpha d 0 1 d 0)[k := alpha * axpy_list k alpha d 0 1 d 0 ! k + v]
   = (axpy_list k alpha d 0 1 d 0)[k := alpha * d ! k + v]"
proof (cases "k < length d")
  case True
  then show ?thesis by (simp add: axpy_nth)
next
  case False
  then show ?thesis by (simp add: list_update_beyond)
qed

lemma zaxpy_steps_alias:
  assumes "yr < length h"
  shows "fold (\<lambda>i h'. poke h' yr (0 + i * 1)
                     (alpha * peek h' yr (0 + i * 1) + peek h' yr (0 + i * 1)))
           [0..<k] h
         = h[yr := (h ! yr)\<lparr>Dense.data :=
               axpy_list k alpha (Dense.data (h ! yr)) 0 1 (Dense.data (h ! yr)) 0\<rparr>]"
proof (induction k)
  case 0
  then show ?case by simp
next
  case (Suc k)
  then show ?case
    using assms axpy_alias_step [of k alpha "Dense.data (h ! yr)"]
    by (simp add: peek_poke_simps axpy_list_Suc)
qed

lemma zaxpy_alias:
  assumes "yr < length h"
  shows "zaxpy n alpha (yr, 0) 1 (yr, 0) 1 h
         = h[yr := (h ! yr)\<lparr>Dense.data :=
               axpy_list (nat n) alpha (Dense.data (h ! yr)) 0 1 (Dense.data (h ! yr)) 0\<rparr>]"
  using zaxpy_steps_alias [OF assms, of alpha "nat n"]
  by (simp add: zaxpy_def)

lemma zaxpy_eq_order:
  assumes "yr < length h"
  shows "zaxpy n alpha (xr, 0) 1 (yr, 0) 1 h
         = h[yr := (h ! yr)\<lparr>Dense.data :=
               axpy_list (nat n) alpha (Dense.data (h ! xr)) 0 1 (Dense.data (h ! yr)) 0\<rparr>]"
proof (cases "xr = yr")
  case True
  then show ?thesis using zaxpy_alias [OF assms] by simp
next
  case False
  then show ?thesis using zaxpy_distinct [OF _ assms] by simp
qed

lemma length_strided_list [simp]: "length (strided_list k d1 d2 alpha xs ys) = length ys"
  unfolding strided_list_def by (induction k) simp_all

lemma strided_list_Suc:
  "strided_list (Suc k) d1 d2 alpha xs ys =
     axpy_list d1 alpha xs k d2 (strided_list k d1 d2 alpha xs ys) (k * d1)"
  by (simp add: strided_list_def)

lemma strided_list_0 [simp]: "strided_list 0 d1 d2 alpha xs ys = ys"
  by (simp add: strided_list_def)

lemma strided_loop_eq:
  assumes "right \<noteq> dst" "dst < length h"
  shows "strided_loop dim1 dim2 alpha right dst h
         = h[dst := (h ! dst)\<lparr>Dense.data :=
               strided_list (nat dim2) (nat dim1) (nat dim2) alpha
                 (Dense.data (h ! right)) (Dense.data (h ! dst))\<rparr>]"
proof -
  have "fold (\<lambda>idx h'. zaxpy dim1 alpha (right, idx) (nat dim2) (dst, idx * nat dim1) 1 h')
          [0..<k] h
        = h[dst := (h ! dst)\<lparr>Dense.data :=
               strided_list k (nat dim1) (nat dim2) alpha
                 (Dense.data (h ! right)) (Dense.data (h ! dst))\<rparr>]" for k
  proof (induction k)
    case 0
    then show ?case by simp
  next
    case (Suc k)
    then show ?case
      using assms by (simp add: zaxpy_distinct strided_list_Suc del: One_nat_def)
  qed
  then show ?thesis by (simp add: strided_loop_def)
qed


lemma strided_nth:
  assumes "p < length ys"
  shows "strided_list k d1 d2 alpha xs ys ! p =
     (if p < k * d1 then alpha * xs ! (p div d1 + (p mod d1) * d2) + ys ! p else ys ! p)"
  using assms
proof (induction k)
  case 0
  then show ?case by simp
next
  case (Suc k)
  show ?case
  proof (cases "k * d1 \<le> p \<and> p < k * d1 + d1")
    case True
    then have d: "0 < d1" by auto
    from True have "p div d1 = k"
      by (metis add.commute div_nat_eqI mult.commute mult_Suc)
    moreover from this have "p mod d1 = p - k * d1"
      by (metis add_diff_cancel_left' mult.commute mult_div_mod_eq)
    ultimately show ?thesis using True Suc by (simp add: strided_list_Suc axpy_nth)
  next
    case False
    then show ?thesis using Suc by (auto simp: strided_list_Suc axpy_nth)
  qed
qed

text \<open>The object both dense entry points compute from \<open>left\<close> and \<open>right\<close>.\<close>

lemma add_dense_eq:
  assumes l: "left < length h" and r: "right < length h"
    and sh: "shape (h ! right) = shape (h ! left)"
  shows "add_dense h left right scale =
     (h @ [(h ! left)\<lparr>Dense.data :=
        (if fortran (h ! left) = fortran (h ! right)
         then axpy_list (nat (c_int (fst (shape (h ! left)) * snd (shape (h ! left))))) scale
                (Dense.data (h ! right)) 0 1 (Dense.data (h ! left)) 0
         else strided_list
                (nat (c_int (if fortran (h ! left) then snd (shape (h ! left))
                             else fst (shape (h ! left)))))
                (nat (c_int (if fortran (h ! left) then fst (shape (h ! left))
                             else snd (shape (h ! left)))))
                (nat (c_int (if fortran (h ! left) then snd (shape (h ! left))
                             else fst (shape (h ! left)))))
                scale (Dense.data (h ! right)) (Dense.data (h ! left)))\<rparr>],
      Inr (length h))"
proof -
  have ne: "right \<noteq> length h" using r by simp
  have len: "length h < length (h @ [h ! left])" by simp
  have z: "zaxpy n scale (right, 0) 1 (length h, 0) 1 (h @ [h ! left])
           = h @ [(h ! left)\<lparr>Dense.data :=
               axpy_list (nat n) scale (Dense.data (h ! right)) 0 1 (Dense.data (h ! left)) 0\<rparr>]"
    for n
    using r by (simp add: zaxpy_distinct [OF ne len] nth_append del: One_nat_def)
  have st: "strided_loop d1 d2 scale right (length h) (h @ [h ! left])
           = h @ [(h ! left)\<lparr>Dense.data :=
               strided_list (nat d2) (nat d1) (nat d2) scale
                 (Dense.data (h ! right)) (Dense.data (h ! left))\<rparr>]"
    for d1 d2
    using r by (simp add: strided_loop_eq [OF ne len] nth_append)
  show ?thesis
    using sh
    by (simp add: add_dense_def priv_check_shape_def priv_add_dense_eq_order_def Let_def
        dense_copy_def z st del: One_nat_def)
qed

lemma iadd_dense_eq:
  assumes l: "left < length h" and r: "right < length h"
    and sh: "shape (h ! right) = shape (h ! left)"
  shows "iadd_dense h left right scale =
     (h[left := (h ! left)\<lparr>Dense.data :=
        (if fortran (h ! left) = fortran (h ! right)
         then axpy_list (nat (c_int (fst (shape (h ! left)) * snd (shape (h ! left))))) scale
                (Dense.data (h ! right)) 0 1 (Dense.data (h ! left)) 0
         else strided_list
                (nat (c_int (if fortran (h ! left) then snd (shape (h ! left))
                             else fst (shape (h ! left)))))
                (nat (c_int (if fortran (h ! left) then fst (shape (h ! left))
                             else snd (shape (h ! left)))))
                (nat (c_int (if fortran (h ! left) then snd (shape (h ! left))
                             else fst (shape (h ! left)))))
                scale (Dense.data (h ! right)) (Dense.data (h ! left)))\<rparr>],
      Inr left)"
proof (cases "fortran (h ! left) = fortran (h ! right)")
  case True
  then show ?thesis
    using sh by (simp add: iadd_dense_def priv_check_shape_def Let_def zaxpy_eq_order [OF l]
        del: One_nat_def)
next
  case False
  then have ne: "right \<noteq> left" by auto
  show ?thesis
    using sh False
    by (simp add: iadd_dense_def priv_check_shape_def Let_def strided_loop_eq [OF ne l]
        del: One_nat_def)
qed


lemma idx_bound: "i < r \<Longrightarrow> j < c \<Longrightarrow> i + j * r < r * (c :: nat)"
proof -
  assume a: "i < r" "j < c"
  then have "i + j * r < Suc j * r" by simp
  also have "Suc j * r \<le> c * r" using a(2) by (intro mult_le_mono1) simp
  finally show ?thesis by (simp add: mult.commute)
qed

lemma dense_result_entry:
  assumes vl: "length dl = rows * cols" and vr: "length dr = rows * cols"
    and small: "rows * cols < 2 ^ 31"
    and i: "i < rows" and j: "j < cols"
  shows "(if fl = fr
          then axpy_list (nat (c_int (rows * cols))) scale dr 0 1 dl 0
          else strided_list
                 (nat (c_int (if fl then cols else rows)))
                 (nat (c_int (if fl then rows else cols)))
                 (nat (c_int (if fl then cols else rows)))
                 scale dr dl)
           ! (if fl then i + j * rows else i * cols + j)
         = dl ! (if fl then i + j * rows else i * cols + j)
           + scale * dr ! (if fr then i + j * rows else i * cols + j)"
proof -
  have pos: "0 < rows" "0 < cols" using i j by simp_all
  have le: "rows \<le> rows * cols" "cols \<le> rows * cols" using pos by simp_all
  have "rows < 2 ^ 31" using le(1) small by (rule le_less_trans)
  then have cr: "nat (c_int rows) = rows" by (simp only: c_int_small nat_int)
  have "cols < 2 ^ 31" using le(2) small by (rule le_less_trans)
  then have cc: "nat (c_int cols) = cols" by (simp only: c_int_small nat_int)
  have cn: "nat (c_int (rows * cols)) = rows * cols"
    using small by (simp only: c_int_small nat_int)
  have b1: "i + j * rows < rows * cols" using i j by (rule idx_bound)
  have b2: "i * cols + j < rows * cols"
    using idx_bound [OF j i] by (simp add: add.commute mult.commute)
  show ?thesis
  proof (cases "fl = fr")
    case True
    then show ?thesis using b1 b2 vl cn by (simp add: axpy_nth)
  next
    case False
    show ?thesis
    proof (cases fl)
      case True
      have "i + j * rows < cols * rows" using b1 by (simp add: mult.commute)
      then show ?thesis
        using True False vl b1 i pos by (simp add: cr cc strided_nth add.commute)
    next
      case fl: False
      have "i * cols + j < rows * cols" using b2 .
      then show ?thesis
        using fl False vl j pos by (simp add: cr cc strided_nth add.commute)
    qed
  qed
qed

lemma add_dense_entries:
  assumes l: "left < length h" and r: "right < length h"
    and vl: "valid_dense (h ! left)" and vr: "valid_dense (h ! right)"
    and sh: "shape (h ! right) = shape (h ! left)"
    and small: "fst (shape (h ! left)) * snd (shape (h ! left)) < 2 ^ 31"
  shows "\<exists>out. add_dense h left right scale = (h @ [out], Inr (length h)) \<and>
           shape out = shape (h ! left) \<and> valid_dense out \<and>
           (\<forall>i < fst (shape (h ! left)). \<forall>j < snd (shape (h ! left)).
              dense_entry out i j
                = dense_entry (h ! left) i j + scale * dense_entry (h ! right) i j)"
proof -
  have a: "length (Dense.data (h ! left)) = fst (shape (h ! left)) * snd (shape (h ! left))"
    and b: "length (Dense.data (h ! right)) = fst (shape (h ! left)) * snd (shape (h ! left))"
    using vl vr sh by (simp_all add: valid_dense_def)
  show ?thesis
    unfolding add_dense_eq [OF l r sh]
    using dense_result_entry [OF a b small, of _ _ "fortran (h ! left)" "fortran (h ! right)" scale]
    by (auto simp: dense_entry_def valid_dense_def a sh)
qed

subsection \<open>Subtraction\<close>

text \<open>
  C8. \<^verbatim>\<open>sub_csr(left, right)\<close> is \<^verbatim>\<open>add_csr(left, right, -1)\<close> and
  \<^verbatim>\<open>sub_dense(left, right)\<close> is \<^verbatim>\<open>add_dense(left, right, -1)\<close>, on every store and
  every pair of operands (the source defines them so, lines 224-229).
\<close>

theorem sub_is_add_minus_one:
  "sub_csr e h left right = add_csr e h left right (- 1) \<and>
   sub_dense h' left' right' = add_dense h' left' right' (- 1)"
  by (simp add: sub_csr_def sub_dense_def)

subsection \<open>Evaluating the CSR functions on concrete inputs\<close>

lemmas csr_eval = add_csr_def priv_check_shape_def csr_copy_def csr_nnz_def priv_add_csr_def
  priv_add_csr_scale_def kernel_tol_def csr_empty_def acc_alloc_def upt_rec merge_loop.simps
  acc_scatter_def acc_gather_def acc_entries_def acc_reset_def new_obj_def
  valid_csr_def csr_row_cols_def seg_def csr_to_dense_def csr_entry_def csr_row_def
  entries_from_def pick_def

subsection \<open>The tolerance of the merge when tidy-up is disabled\<close>

text \<open>
  C1. The claim: with tidy-up disabled the merge uses tolerance zero, nothing is dropped,
  and \<^verbatim>\<open>add_csr(A, B, scale)\<close> expands to \<open>dense(A) + scale * dense(B)\<close>. The kernels
  assign \<^verbatim>\<open>tol\<close> only when tidy-up is enabled; disabled, the gather receives the
  unassigned local. With that local holding 10, \<^verbatim>\<open>add_csr(A, B)\<close> on the matrices of
  the spec's scenario drops every entry: the result has no stored entry and expands to the
  zero matrix, where \<open>dense(A) + dense(B)\<close> is \<open>[[0, 3], [0, 2]]\<close>.
\<close>

theorem add_csr_untidy_drops_entries:
  "\<not> auto_tidyup env_plain \<and>
   add_csr env_plain [ex_A, ex_B] 0 1 1 =
     Some ([ex_A, ex_B,
            \<lparr>shape = (2, 2), row_index = [0, 0, 0], col_index = [0, 0, 0, 0],
             CSR.data = [0, 0, 0, 0]\<rparr>], Inr 2) \<and>
   csr_to_dense \<lparr>shape = (2, 2), row_index = [0, 0, 0], col_index = [0, 0, 0, 0],
                 CSR.data = [0, 0, 0, 0]\<rparr> = [[0, 0], [0, 0]] \<and>
   csr_to_dense ex_A = [[1, 0], [0, 2]] \<and> csr_to_dense ex_B = [[- 1, 3], [0, 0]]"
  by (simp add: csr_eval env_plain_def ex_A_def ex_B_def)

subsection \<open>The result of \<open>add_csr\<close> is a valid CSR matrix\<close>

text \<open>
  C2. For valid CSR matrices of one shape, at any two positions of any store, under any
  settings and any scale (the claim's \<^verbatim>\<open>add_csr(A, B)\<close> is \<open>scale = 1\<close>), \<^verbatim>\<open>add_csr\<close>
  returns, and returns a new object of the operands' shape that is a valid CSR matrix:
  \<open>row_index\<close> has \<open>rows + 1\<close> entries, starts at 0, does not decrease and ends at the
  stored entry count, which is the sum of the lengths of the rows and within the capacity
  of the buffers; the columns of every row increase strictly and lie below \<open>cols\<close>.
\<close>

theorem add_csr_structurally_valid:
  assumes "valid_csr (h ! left)" and "valid_csr (h ! right)"
    and "shape (h ! right) = shape (h ! left)"
  shows "\<exists>out. add_csr e h left right scale = Some (h @ [out], Inr (length h)) \<and>
           shape out = shape (h ! left) \<and> valid_csr out \<and>
           csr_nnz out = sum_list (map (\<lambda>r. length (csr_row_cols out r)) [0..<fst (shape out)])"
proof -
  from add_csr_total [OF assms, of e scale]
  obtain out where "add_csr e h left right scale = Some (h @ [out], Inr (length h))"
    "shape out = shape (h ! left)" "valid_csr out"
    by blast
  then show ?thesis using valid_csr_nnz_count [of out] by blast
qed

theorem add_csr_structurally_valid_witness:
  "valid_csr ex_A \<and> valid_csr ex_B \<and> shape ex_B = shape ex_A \<and>
   add_csr env_tidy [ex_A, ex_B] 0 1 1 =
     Some ([ex_A, ex_B,
            \<lparr>shape = (2, 2), row_index = [0, 1, 2], col_index = [1, 1, 0, 0],
             CSR.data = [3, 2, 0, 0]\<rparr>], Inr 2) \<and>
   valid_csr \<lparr>shape = (2, 2), row_index = [0, 1, 2], col_index = [1, 1, 0, 0],
              CSR.data = [3, 2, 0, 0]\<rparr>"
proof -
  have v: "valid_csr ([ex_A, ex_B] ! 0)" "valid_csr ([ex_A, ex_B] ! 1)"
    "shape ([ex_A, ex_B] ! 1) = shape ([ex_A, ex_B] ! 0)"
    by (simp_all add: csr_eval ex_A_def ex_B_def)
  have ev: "add_csr env_tidy [ex_A, ex_B] 0 1 1 =
     Some ([ex_A, ex_B,
            \<lparr>shape = (2, 2), row_index = [0, 1, 2], col_index = [1, 1, 0, 0],
             CSR.data = [3, 2, 0, 0]\<rparr>], Inr 2)"
    by (simp add: csr_eval env_tidy_def ex_A_def ex_B_def)
  from add_csr_structurally_valid [OF v, of env_tidy 1] ev v show ?thesis by auto
qed

subsection \<open>The dense expansion of the result of \<open>add_csr\<close>\<close>

text \<open>
  When the tolerance the kernels pass to the gather is not positive (tidy-up enabled with
  threshold 0, or disabled with the unassigned local holding a value that is not
  positive), \<^verbatim>\<open>add_csr(left, right, scale)\<close> on valid matrices of one shape returns a
  matrix that expands to \<open>dense(left) + scale * dense(right)\<close>: a gathered entry is
  dropped only when it is exactly zero.
\<close>

theorem add_csr_dense_expansion:
  assumes "valid_csr (h ! left)" and "valid_csr (h ! right)"
    and "shape (h ! right) = shape (h ! left)"
    and "kernel_tol e \<le> 0"
  shows "\<exists>out. add_csr e h left right scale = Some (h @ [out], Inr (length h)) \<and>
           shape out = shape (h ! left) \<and>
           (\<forall>i < fst (shape (h ! left)). \<forall>j < snd (shape (h ! left)).
              csr_entry out i j = csr_entry (h ! left) i j + scale * csr_entry (h ! right) i j)"
  using add_csr_total [OF assms(1,2,3), of e scale] assms(4) by blast

theorem add_csr_dense_expansion_witness:
  "valid_csr ex_A \<and> valid_csr ex_B \<and> shape ex_B = shape ex_A \<and> kernel_tol env_zero \<le> 0 \<and>
   add_csr env_zero [ex_A, ex_B] 0 1 2 =
     Some ([ex_A, ex_B,
            \<lparr>shape = (2, 2), row_index = [0, 2, 3], col_index = [0, 1, 1, 0],
             CSR.data = [- 1, 6, 2, 0]\<rparr>], Inr 2) \<and>
   csr_to_dense \<lparr>shape = (2, 2), row_index = [0, 2, 3], col_index = [0, 1, 1, 0],
                 CSR.data = [- 1, 6, 2, 0]\<rparr> = [[- 1, 6], [0, 2]]"
proof -
  have v: "valid_csr ([ex_A, ex_B] ! 0)" "valid_csr ([ex_A, ex_B] ! 1)"
    "shape ([ex_A, ex_B] ! 1) = shape ([ex_A, ex_B] ! 0)" "kernel_tol env_zero \<le> 0"
    by (simp_all add: csr_eval ex_A_def ex_B_def env_zero_def)
  have ev: "add_csr env_zero [ex_A, ex_B] 0 1 2 =
     Some ([ex_A, ex_B,
            \<lparr>shape = (2, 2), row_index = [0, 2, 3], col_index = [0, 1, 1, 0],
             CSR.data = [- 1, 6, 2, 0]\<rparr>], Inr 2)"
    by (simp add: csr_eval env_zero_def ex_A_def ex_B_def)
  have d: "csr_to_dense \<lparr>shape = (2, 2), row_index = [0, 2, 3], col_index = [0, 1, 1, 0],
                 CSR.data = [- 1, 6, 2, 0]\<rparr> = [[- 1, 6], [0, 2]]"
    by (simp add: csr_eval)
  from add_csr_dense_expansion [OF v, of 2] ev d v show ?thesis by auto
qed

subsection \<open>The fast paths of \<open>add_csr\<close>\<close>

text \<open>
  C6. For matrices of one shape, if \<open>right\<close> has no stored entry or \<open>scale\<close> is 0,
  \<^verbatim>\<open>add_csr(left, right, scale)\<close> returns a copy of \<open>left\<close>: the store after the call
  is the store before it with one object added, equal to \<open>left\<close> in every field, and the
  position returned is that of the added object, which is no position of the store before
  the call (so not the position of \<open>left\<close>).
\<close>

theorem add_csr_right_empty_or_scale_zero:
  assumes "shape (h ! right) = shape (h ! left)"
    and "csr_nnz (h ! right) = 0 \<or> scale = 0"
  shows "add_csr e h left right scale = Some (h @ [h ! left], Inr (length h))"
  using assms by (simp add: add_csr_unfold)

theorem add_csr_right_empty_or_scale_zero_witness:
  "shape ([ex_A, ex_B] ! 1) = shape ([ex_A, ex_B] ! 0) \<and>
   (csr_nnz ([ex_A, ex_B] ! 1) = 0 \<or> (0 :: complex) = 0) \<and>
   add_csr env_tidy [ex_A, ex_B] 0 1 0 = Some ([ex_A, ex_B, ex_A], Inr 2)"
  using add_csr_right_empty_or_scale_zero [of "[ex_A, ex_B]" 1 0 0 env_tidy]
  by (simp add: ex_A_def ex_B_def)

text \<open>
  C4, as the claim states it, fails: the fast path for a \<open>left\<close> without stored entries
  copies \<open>right\<close> and scales its values, and never filters. With tidy-up enabled
  (threshold \<open>1 / 10 ^ 12\<close>), \<open>left\<close> the empty 1 by 1 matrix, \<open>right\<close> the 1 by 1 matrix
  that stores the value 0 at \<open>(0, 0)\<close> and \<open>scale = 2\<close>, the result stores one entry,
  of value exactly 0.
\<close>

theorem add_csr_fast_path_keeps_zero:
  "auto_tidyup env_tidy \<and> 0 < auto_tidyup_atol env_tidy \<and>
   valid_csr ex_Z \<and> valid_csr ex_E \<and> shape ex_E = shape ex_Z \<and> csr_nnz ex_Z = 0 \<and>
   add_csr env_tidy [ex_Z, ex_E] 0 1 2 = Some ([ex_Z, ex_E, ex_E], Inr 2) \<and>
   csr_nnz ex_E = 1 \<and> CSR.data ex_E ! 0 = 0 \<and> col_index ex_E ! 0 = 0 \<and>
   csr_row ex_E 0 = [(0, 0)]"
  by (simp add: csr_eval Let_def env_tidy_def ex_Z_def ex_E_def)

text \<open>
  C4, amended. For valid matrices of one shape where \<open>left\<close> has no stored entry,
  \<^verbatim>\<open>add_csr(left, right, scale)\<close> returns a matrix of that shape which expands to
  \<open>scale * dense(right)\<close>; when \<open>right\<close> has stored entries and \<open>scale\<close> is not 0, the
  result has the \<open>row_index\<close> and \<open>col_index\<close> of \<open>right\<close> and the values of \<open>right\<close>
  with every stored value multiplied by \<open>scale\<close>: no entry is removed, whatever the
  tidy-up setting.
\<close>

theorem add_csr_left_empty:
  assumes "valid_csr (h ! left)" and "valid_csr (h ! right)"
    and "shape (h ! right) = shape (h ! left)"
    and "csr_nnz (h ! left) = 0"
  shows "\<exists>out. add_csr e h left right scale = Some (h @ [out], Inr (length h)) \<and>
           shape out = shape (h ! right) \<and>
           (\<forall>i < fst (shape (h ! right)). \<forall>j < snd (shape (h ! right)).
              csr_entry out i j = scale * csr_entry (h ! right) i j) \<and>
           (csr_nnz (h ! right) \<noteq> 0 \<and> scale \<noteq> 0 \<longrightarrow>
              row_index out = row_index (h ! right) \<and>
              col_index out = col_index (h ! right) \<and>
              CSR.data out =
                map (\<lambda>v. v * scale) (take (csr_nnz (h ! right)) (CSR.data (h ! right)))
                @ drop (csr_nnz (h ! right)) (CSR.data (h ! right)))"
proof (cases "csr_nnz (h ! right) = 0 \<or> scale = 0")
  case True
  have run: "add_csr e h left right scale = Some (h @ [h ! left], Inr (length h))"
    using True assms(3) by (simp add: add_csr_unfold)
  have l0: "csr_entry (h ! left) i j = 0" if "i < fst (shape (h ! right))" for i j
    using empty_csr_entry [OF assms(1,4), of i j] that assms(3) by simp
  have r0: "scale * csr_entry (h ! right) i j = 0" if "i < fst (shape (h ! right))" for i j
    using True empty_csr_entry [OF assms(2), of i j] that by auto
  show ?thesis using run l0 r0 True assms(3) by auto
next
  case False
  let ?out = "if scale \<noteq> 1
              then (h ! right)\<lparr>CSR.data :=
                     fold (\<lambda>i d. d[i := d ! i * scale]) [0..<csr_nnz (h ! right)]
                       (CSR.data (h ! right))\<rparr>
              else h ! right"
  have run: "add_csr e h left right scale = Some (h @ [?out], Inr (length h))"
    using False assms(3,4) by (simp add: add_csr_unfold)
  have ent: "csr_entry ?out i j = scale * csr_entry (h ! right) i j"
    if "i < fst (shape (h ! right))" for i j
    using that scaled_copy(3) [OF assms(2) refl, of i scale j] by (cases "scale = 1") simp_all
  have dat: "CSR.data ?out =
      map (\<lambda>v. v * scale) (take (csr_nnz (h ! right)) (CSR.data (h ! right)))
      @ drop (csr_nnz (h ! right)) (CSR.data (h ! right))"
    using scaled_copy(2) [OF assms(2) refl, of scale] by (cases "scale = 1") simp_all
  have "shape ?out = shape (h ! right)" "row_index ?out = row_index (h ! right)"
    "col_index ?out = col_index (h ! right)"
    by simp_all
  then show ?thesis using run ent dat by blast
qed

theorem add_csr_left_empty_witness:
  "valid_csr ex_Z \<and> valid_csr ex_E \<and> shape ex_E = shape ex_Z \<and> csr_nnz ex_Z = 0 \<and>
   csr_nnz ex_E \<noteq> 0 \<and> (2 :: complex) \<noteq> 0 \<and>
   add_csr env_tidy [ex_Z, ex_E] 0 1 2 = Some ([ex_Z, ex_E, ex_E], Inr 2)"
proof -
  have v: "valid_csr ([ex_Z, ex_E] ! 0)" "valid_csr ([ex_Z, ex_E] ! 1)"
    "shape ([ex_Z, ex_E] ! 1) = shape ([ex_Z, ex_E] ! 0)" "csr_nnz ([ex_Z, ex_E] ! 0) = 0"
    by (simp_all add: csr_eval ex_Z_def ex_E_def)
  have nz: "csr_nnz ex_E \<noteq> 0" by (simp add: csr_nnz_def ex_E_def)
  from add_csr_left_empty [OF v, of env_tidy 2]
  obtain out where o: "add_csr env_tidy [ex_Z, ex_E] 0 1 2 = Some ([ex_Z, ex_E] @ [out], Inr 2)"
    "shape out = shape ex_E" "row_index out = row_index ex_E" "col_index out = col_index ex_E"
    "CSR.data out = map (\<lambda>v. v * 2) (take (csr_nnz ex_E) (CSR.data ex_E))
                    @ drop (csr_nnz ex_E) (CSR.data ex_E)"
    using nz by auto
  have "CSR.data out = CSR.data ex_E" using o(5) by (simp add: csr_nnz_def ex_E_def)
  then have "out = ex_E" using o(2,3,4) by simp
  then show ?thesis using o(1) v nz by simp
qed

subsection \<open>Shape mismatch\<close>

lemma str_ex: "str_shape (2, 3) = ''(2, 3)''" "str_shape (12, 305) = ''(12, 305)''"
  by (simp_all add: str_shape_def)

text \<open>
  C5. When the shapes of the operands differ (in either dimension), each of the five
  entry points raises \<^verbatim>\<open>ValueError\<close> with the message
  \<^verbatim>\<open>"incompatible matrix shapes " + str(left.shape) + " and " + str(right.shape)\<close>,
  and the store after the call is the store before it: no object was created and no
  operand was changed.
\<close>

theorem shape_mismatch_raises:
  "(shape (h ! left) \<noteq> shape (h ! right) \<longrightarrow>
      add_csr e h left right scale =
        Some (h, Inl (ValueError (''incompatible matrix shapes '' @ str_shape (shape (h ! left))
                                  @ '' and '' @ str_shape (shape (h ! right))))) \<and>
      sub_csr e h left right =
        Some (h, Inl (ValueError (''incompatible matrix shapes '' @ str_shape (shape (h ! left))
                                  @ '' and '' @ str_shape (shape (h ! right)))))) \<and>
   (shape (h' ! left') \<noteq> shape (h' ! right') \<longrightarrow>
      add_dense h' left' right' scale =
        (h', Inl (ValueError (''incompatible matrix shapes '' @ str_shape (shape (h' ! left'))
                              @ '' and '' @ str_shape (shape (h' ! right'))))) \<and>
      iadd_dense h' left' right' scale =
        (h', Inl (ValueError (''incompatible matrix shapes '' @ str_shape (shape (h' ! left'))
                              @ '' and '' @ str_shape (shape (h' ! right'))))) \<and>
      sub_dense h' left' right' =
        (h', Inl (ValueError (''incompatible matrix shapes '' @ str_shape (shape (h' ! left'))
                              @ '' and '' @ str_shape (shape (h' ! right'))))))"
  by (simp add: add_csr_def sub_csr_def add_dense_def iadd_dense_def sub_dense_def
      priv_check_shape_def prod_eq_iff)

theorem shape_mismatch_raises_witness:
  "shape ([ex_M23, ex_M32] ! 0) \<noteq> shape ([ex_M23, ex_M32] ! 1) \<and>
   add_csr env_tidy [ex_M23, ex_M32] 0 1 1 =
     Some ([ex_M23, ex_M32], Inl (ValueError ''incompatible matrix shapes (2, 3) and (3, 2)'')) \<and>
   sub_csr env_tidy [ex_M23, ex_M32] 0 1 =
     Some ([ex_M23, ex_M32], Inl (ValueError ''incompatible matrix shapes (2, 3) and (3, 2)'')) \<and>
   shape ([ex_D23, ex_D32] ! 0) \<noteq> shape ([ex_D23, ex_D32] ! 1) \<and>
   add_dense [ex_D23, ex_D32] 0 1 1 =
     ([ex_D23, ex_D32], Inl (ValueError ''incompatible matrix shapes (2, 3) and (3, 2)'')) \<and>
   iadd_dense [ex_D23, ex_D32] 0 1 1 =
     ([ex_D23, ex_D32], Inl (ValueError ''incompatible matrix shapes (2, 3) and (3, 2)'')) \<and>
   sub_dense [ex_D23, ex_D32] 0 1 =
     ([ex_D23, ex_D32], Inl (ValueError ''incompatible matrix shapes (2, 3) and (3, 2)''))"
proof -
  have a: "shape ([ex_M23, ex_M32] ! 0) \<noteq> shape ([ex_M23, ex_M32] ! 1)"
    and b: "shape ([ex_D23, ex_D32] ! 0) \<noteq> shape ([ex_D23, ex_D32] ! 1)"
    by (simp_all add: ex_M23_def ex_M32_def ex_D23_def ex_D32_def)
  have s: "str_shape (shape ex_M23) = ''(2, 3)''" "str_shape (shape ex_M32) = ''(3, 2)''"
    "str_shape (shape ex_D23) = ''(2, 3)''" "str_shape (shape ex_D32) = ''(3, 2)''"
    by (simp_all add: str_shape_def ex_M23_def ex_M32_def ex_D23_def ex_D32_def)
  show ?thesis
    using shape_mismatch_raises [of "[ex_M23, ex_M32]" 0 1 env_tidy 1 "[ex_D23, ex_D32]" 0 1]
      a b
    by (simp add: s)
qed

subsection \<open>Evaluating the dense functions on concrete inputs\<close>

lemmas dense_eval = add_dense_def iadd_dense_def sub_dense_def priv_add_dense_eq_order_def
  priv_check_shape_def dense_copy_def zaxpy_def strided_loop_def peek_def poke_def c_int_def
  upt_rec Let_def valid_dense_def dense_entry_def dense_to_rows_def

subsection \<open>In-place addition against addition\<close>

text \<open>
  C7. For two dense matrices of one shape in the store (at the same position or at
  different ones) and any scale, \<^verbatim>\<open>iadd_dense(L, R, scale)\<close> leaves the store with, at the
  position of \<open>L\<close>, exactly the object \<^verbatim>\<open>add_dense(L, R, scale)\<close> creates (shape, layout
  flag and every value of the buffer), changes no other position, and returns the position
  of \<open>L\<close> itself.
\<close>

theorem iadd_dense_matches_add_dense:
  assumes "left < length h" and "right < length h"
    and "shape (h ! right) = shape (h ! left)"
  shows "\<exists>out. add_dense h left right scale = (h @ [out], Inr (length h)) \<and>
               iadd_dense h left right scale = (h[left := out], Inr left)"
  by (simp add: add_dense_eq [OF assms] iadd_dense_eq [OF assms])

theorem iadd_dense_matches_add_dense_witness:
  "(0 :: nat) < length [ex_L, ex_R] \<and> (1 :: nat) < length [ex_L, ex_R] \<and>
   shape ([ex_L, ex_R] ! 1) = shape ([ex_L, ex_R] ! 0) \<and>
   add_dense [ex_L, ex_R] 0 1 1 =
     ([ex_L, ex_R, \<lparr>shape = (2, 2), Dense.data = [6, 8, 10, 12], fortran = False\<rparr>], Inr 2) \<and>
   iadd_dense [ex_L, ex_R] 0 1 1 =
     ([\<lparr>shape = (2, 2), Dense.data = [6, 8, 10, 12], fortran = False\<rparr>, ex_R], Inr 0)"
proof -
  have a: "(0 :: nat) < length [ex_L, ex_R]" "(1 :: nat) < length [ex_L, ex_R]"
    "shape ([ex_L, ex_R] ! 1) = shape ([ex_L, ex_R] ! 0)"
    by (simp_all add: ex_L_def ex_R_def)
  have ev: "add_dense [ex_L, ex_R] 0 1 1 =
     ([ex_L, ex_R, \<lparr>shape = (2, 2), Dense.data = [6, 8, 10, 12], fortran = False\<rparr>], Inr 2)"
    by (simp add: dense_eval ex_L_def ex_R_def)
  from iadd_dense_matches_add_dense [OF a, of 1] ev a show ?thesis by auto
qed

subsection \<open>The layout of the result of \<open>add_dense\<close>\<close>

text \<open>
  C9. For two dense matrices of one shape in the store, the matrix \<^verbatim>\<open>add_dense\<close> returns
  has the layout flag and the shape of the left operand, whatever the flag of the right
  one.
\<close>

theorem add_dense_keeps_left_layout:
  assumes "left < length h" and "right < length h"
    and "shape (h ! right) = shape (h ! left)"
  shows "\<exists>out. add_dense h left right scale = (h @ [out], Inr (length h)) \<and>
               fortran out = fortran (h ! left) \<and> shape out = shape (h ! left)"
  by (simp add: add_dense_eq [OF assms])

theorem add_dense_keeps_left_layout_witness:
  "(1 :: nat) < length [ex_L, ex_R] \<and> (0 :: nat) < length [ex_L, ex_R] \<and>
   shape ([ex_L, ex_R] ! 0) = shape ([ex_L, ex_R] ! 1) \<and>
   add_dense [ex_L, ex_R] 1 0 1 =
     ([ex_L, ex_R, \<lparr>shape = (2, 2), Dense.data = [6, 10, 8, 12], fortran = True\<rparr>], Inr 2) \<and>
   fortran ex_R \<and> \<not> fortran ex_L"
proof -
  have a: "(1 :: nat) < length [ex_L, ex_R]" "(0 :: nat) < length [ex_L, ex_R]"
    "shape ([ex_L, ex_R] ! 0) = shape ([ex_L, ex_R] ! 1)"
    by (simp_all add: ex_L_def ex_R_def)
  have ev: "add_dense [ex_L, ex_R] 1 0 1 =
     ([ex_L, ex_R, \<lparr>shape = (2, 2), Dense.data = [6, 10, 8, 12], fortran = True\<rparr>], Inr 2)"
    by (simp add: dense_eval ex_L_def ex_R_def)
  have f: "fortran ex_R" "\<not> fortran ex_L" by (simp_all add: ex_L_def ex_R_def)
  from add_dense_keeps_left_layout [OF a, of 1] ev a f show ?thesis by auto
qed

subsection \<open>The values of the result of \<open>add_dense\<close>\<close>

text \<open>
  C3, as the claim states it (for every pair of dense matrices of one shape), fails: the
  element count reaches \<^verbatim>\<open>zaxpy\<close> as a C \<^verbatim>\<open>int\<close>. For two row-major 65536 by 32768
  matrices of ones the count \<open>2 ^ 31\<close> becomes \<open>- 2 ^ 31\<close>, \<^verbatim>\<open>zaxpy\<close> adds nothing, and
  \<^verbatim>\<open>add_dense\<close> returns a copy of the left operand: its entry at \<open>(0, 0)\<close> is 1, not
  \<open>1 + 1 * 1\<close>.
\<close>

theorem add_dense_count_overflow:
  "valid_dense ex_big \<and> shape ex_big = (65536, 32768) \<and>
   add_dense [ex_big, ex_big] 0 1 1 = ([ex_big, ex_big, ex_big], Inr 2) \<and>
   dense_entry ex_big 0 0 = 1 \<and>
   dense_entry ex_big 0 0 + 1 * dense_entry ex_big 0 0 = 2"
  by (simp add: dense_eval ex_big_def)

text \<open>
  C3, amended. For two valid dense matrices of one shape with fewer than \<open>2 ^ 31\<close>
  elements and any scale, \<^verbatim>\<open>add_dense(L, R, scale)\<close> returns a new valid matrix of that
  shape whose entry at every \<open>(i, j)\<close> is \<open>L(i, j) + scale * R(i, j)\<close>, whether the layout
  flags of the operands agree or differ; with \<open>scale = 1\<close> the results of
  \<^verbatim>\<open>add_dense(L, R)\<close> and \<^verbatim>\<open>add_dense(R, L)\<close> have the same rows of values.
\<close>

theorem add_dense_elementwise:
  assumes "left < length h" and "right < length h"
    and "valid_dense (h ! left)" and "valid_dense (h ! right)"
    and "shape (h ! right) = shape (h ! left)"
    and "fst (shape (h ! left)) * snd (shape (h ! left)) < 2 ^ 31"
  shows "\<exists>out out'.
           add_dense h left right scale = (h @ [out], Inr (length h)) \<and>
           add_dense h right left scale = (h @ [out'], Inr (length h)) \<and>
           shape out = shape (h ! left) \<and> valid_dense out \<and>
           (\<forall>i < fst (shape (h ! left)). \<forall>j < snd (shape (h ! left)).
              dense_entry out i j
                = dense_entry (h ! left) i j + scale * dense_entry (h ! right) i j) \<and>
           (scale = 1 \<longrightarrow> dense_to_rows out' = dense_to_rows out)"
proof -
  from add_dense_entries [OF assms, of scale]
  obtain out where o: "add_dense h left right scale = (h @ [out], Inr (length h))"
    "shape out = shape (h ! left)" "valid_dense out"
    "\<forall>i < fst (shape (h ! left)). \<forall>j < snd (shape (h ! left)).
        dense_entry out i j = dense_entry (h ! left) i j + scale * dense_entry (h ! right) i j"
    by blast
  have sh': "shape (h ! left) = shape (h ! right)" using assms(5) by simp
  have small': "fst (shape (h ! right)) * snd (shape (h ! right)) < 2 ^ 31"
    using assms(5,6) by simp
  from add_dense_entries [OF assms(2,1,4,3) sh' small', of scale]
  obtain out' where o': "add_dense h right left scale = (h @ [out'], Inr (length h))"
    "shape out' = shape (h ! right)"
    "\<forall>i < fst (shape (h ! right)). \<forall>j < snd (shape (h ! right)).
        dense_entry out' i j = dense_entry (h ! right) i j + scale * dense_entry (h ! left) i j"
    by blast
  have "dense_to_rows out' = dense_to_rows out" if "scale = 1"
    using that o(2,4) o'(2,3) assms(5) by (simp add: dense_to_rows_def)
  then show ?thesis using o o'(1) by blast
qed

theorem add_dense_elementwise_witness:
  "valid_dense ex_L \<and> valid_dense ex_R \<and> shape ex_R = shape ex_L \<and>
   fst (shape ex_L) * snd (shape ex_L) < 2 ^ 31 \<and>
   add_dense [ex_L, ex_R] 0 1 1 =
     ([ex_L, ex_R, \<lparr>shape = (2, 2), Dense.data = [6, 8, 10, 12], fortran = False\<rparr>], Inr 2) \<and>
   add_dense [ex_L, ex_R] 1 0 1 =
     ([ex_L, ex_R, \<lparr>shape = (2, 2), Dense.data = [6, 10, 8, 12], fortran = True\<rparr>], Inr 2) \<and>
   dense_to_rows \<lparr>shape = (2, 2), Dense.data = [6, 8, 10, 12], fortran = False\<rparr>
     = [[6, 8], [10, 12]] \<and>
   dense_to_rows \<lparr>shape = (2, 2), Dense.data = [6, 10, 8, 12], fortran = True\<rparr>
     = [[6, 8], [10, 12]]"
proof -
  have a: "(0 :: nat) < length [ex_L, ex_R]" "(1 :: nat) < length [ex_L, ex_R]"
    "valid_dense ([ex_L, ex_R] ! 0)" "valid_dense ([ex_L, ex_R] ! 1)"
    "shape ([ex_L, ex_R] ! 1) = shape ([ex_L, ex_R] ! 0)"
    "fst (shape ([ex_L, ex_R] ! 0)) * snd (shape ([ex_L, ex_R] ! 0)) < 2 ^ 31"
    by (simp_all add: ex_L_def ex_R_def valid_dense_def)
  have ev: "add_dense [ex_L, ex_R] 0 1 1 =
     ([ex_L, ex_R, \<lparr>shape = (2, 2), Dense.data = [6, 8, 10, 12], fortran = False\<rparr>], Inr 2)"
    "add_dense [ex_L, ex_R] 1 0 1 =
     ([ex_L, ex_R, \<lparr>shape = (2, 2), Dense.data = [6, 10, 8, 12], fortran = True\<rparr>], Inr 2)"
    by (simp_all add: dense_eval ex_L_def ex_R_def)
  have d: "dense_to_rows \<lparr>shape = (2, 2), Dense.data = [6, 8, 10, 12], fortran = False\<rparr>
     = [[6, 8], [10, 12]]"
    by (simp add: dense_eval)
  from add_dense_elementwise [OF a, of 1] ev d a show ?thesis by auto
qed

subsection \<open>The C \<open>int\<close> counts of the dense kernels\<close>

text \<open>
  C10, as the claim states it, fails in its last part: the count does not wrap modulo
  \<open>2 ^ 31\<close>. For 65536 by 32769 elements the count is \<open>- 2147418112\<close>, where the number
  of elements modulo \<open>2 ^ 31\<close> is 65536.
\<close>

theorem dense_count_not_mod_2_31:
  "c_int (65536 * 32769) = - 2147418112 \<and> int ((65536 * 32769) mod 2 ^ 31) = 65536"
  by (simp add: c_int_def)

text \<open>
  C10, amended. A count or extent \<open>n\<close> reaches \<^verbatim>\<open>zaxpy\<close> as the C \<^verbatim>\<open>int\<close>
  \<open>(n + 2 ^ 31) mod 2 ^ 32 - 2 ^ 31\<close>: it is \<open>n\<close> itself when \<open>n < 2 ^ 31\<close>, and beyond that it
  is \<open>n\<close> reduced modulo \<open>2 ^ 32\<close> into the signed range. When the count of elements
  comes out non-positive, the contiguous kernel adds nothing: \<^verbatim>\<open>_add_dense_eq_order\<close> and
  \<^verbatim>\<open>add_dense\<close> return a copy of \<open>left\<close>, and \<^verbatim>\<open>iadd_dense\<close> leaves the store as it
  was.
\<close>

theorem dense_count_is_wrapped:
  "c_int n = (int n + 2 ^ 31) mod 2 ^ 32 - 2 ^ 31 \<and>
   (n < 2 ^ 31 \<longrightarrow> c_int n = int n) \<and>
   (c_int (fst (shape (h ! left)) * snd (shape (h ! left))) \<le> 0 \<longrightarrow>
      priv_add_dense_eq_order h left right scale = (h @ [h ! left], Inr (length h)) \<and>
      (fortran (h ! left) = fortran (h ! right) \<and> shape (h ! right) = shape (h ! left) \<longrightarrow>
         add_dense h left right scale = (h @ [h ! left], Inr (length h)) \<and>
         iadd_dense h left right scale = (h, Inr left)))"
proof (intro conjI impI)
  show "c_int n = (int n + 2 ^ 31) mod 2 ^ 32 - 2 ^ 31"
    by (rule c_int_eq)
  show "c_int n = int n" if "n < 2 ^ 31"
    using that by (rule c_int_small)
next
  assume n: "c_int (fst (shape (h ! left)) * snd (shape (h ! left))) \<le> 0"
  then show eq: "priv_add_dense_eq_order h left right scale = (h @ [h ! left], Inr (length h))"
    by (simp add: priv_add_dense_eq_order_def zaxpy_def dense_copy_def Let_def)
  assume "fortran (h ! left) = fortran (h ! right) \<and> shape (h ! right) = shape (h ! left)"
  then show "add_dense h left right scale = (h @ [h ! left], Inr (length h))"
    and "iadd_dense h left right scale = (h, Inr left)"
    using n eq by (simp_all add: add_dense_def iadd_dense_def priv_check_shape_def zaxpy_def Let_def)
qed

theorem dense_count_is_wrapped_witness:
  "(4 :: nat) < 2 ^ 31 \<and> c_int 4 = 4 \<and>
   c_int (fst (shape ([ex_big, ex_big] ! 0)) * snd (shape ([ex_big, ex_big] ! 0))) \<le> 0 \<and>
   c_int (65536 * 32768) = - 2147483648 \<and>
   priv_add_dense_eq_order [ex_big, ex_big] 0 1 1 = ([ex_big, ex_big, ex_big], Inr 2) \<and>
   iadd_dense [ex_big, ex_big] 0 1 1 = ([ex_big, ex_big], Inr 0)"
proof -
  have a: "(4 :: nat) < 2 ^ 31" by simp
  have b: "c_int (fst (shape ([ex_big, ex_big] ! 0)) * snd (shape ([ex_big, ex_big] ! 0))) \<le> 0"
    "c_int (65536 * 32768) = - 2147483648"
    by (simp_all add: ex_big_def c_int_def)
  show ?thesis
    using dense_count_is_wrapped [of 4 "[ex_big, ex_big]" 0 1 1] a b by simp
qed

end
